theory Spec2Isabelle
  imports Complex_Main
begin

section \<open>JavaScript values\<close>

text \<open>
  The values that flow through \<open>index.js\<close>. \<open>JArr\<close> and \<open>JObj\<close> are structured
  values the code only passes on (keys, payloads, parsed reply bodies); \<open>JRef a\<close> is
  the reference to an object of the caller, which lives at address \<open>a\<close> of the heap
  and can be changed in place; \<open>JBuf\<close> is a byte buffer; \<open>JError m c\<close> is an
  \<open>Error\<close> object built by \<open>new Error(m)\<close> whose \<open>code\<close> property is \<open>c\<close> (the argument \<open>m\<close> is kept as it was given, before the
  coercion to a string that the constructor applies). Numbers are the integers; \<open>NaN\<close>
  and fractions do not occur in the places modelled here.
\<close>

datatype jsval =
    JUndefined
  | JNull
  | JBool bool
  | JNum int
  | JStr string
  | JBuf "nat list"
  | JArr "jsval list"
  | JObj "(string \<times> jsval) list"
  | JError jsval jsval
  | JRef nat

text \<open>The truth value a JavaScript condition gives to a value: \<open>undefined\<close>, \<open>null\<close>,
  \<open>false\<close>, \<open>0\<close> and the empty string are falsy, every object (arrays, also the empty
  one, buffers, errors) is truthy.\<close>

fun truthy :: "jsval \<Rightarrow> bool" where
  "truthy JUndefined = False"
| "truthy JNull = False"
| "truthy (JBool b) = b"
| "truthy (JNum n) = (n \<noteq> 0)"
| "truthy (JStr s) = (s \<noteq> [])"
| "truthy (JBuf bs) = True"
| "truthy (JArr xs) = True"
| "truthy (JObj fs) = True"
| "truthy (JError m c) = True"
| "truthy (JRef a) = True"

text \<open>\<open>_.isArray(v)\<close>, and \<open>v.length\<close> read on an array.\<close>

fun isArray :: "jsval \<Rightarrow> bool" where
  "isArray (JArr xs) = True"
| "isArray v = False"

fun arr_length :: "jsval \<Rightarrow> nat" where
  "arr_length (JArr xs) = length xs"
| "arr_length v = 0"

text \<open>Reading the property \<open>code\<close> of a value that is not \<open>undefined\<close> or \<open>null\<close>.\<close>

fun code_of :: "jsval \<Rightarrow> jsval" where
  "code_of (JError m c) = c"
| "code_of (JObj fs) = (case map_of fs ''code'' of Some v \<Rightarrow> v | None \<Rightarrow> JUndefined)"
| "code_of v = JUndefined"

section \<open>The result cache region\<close>

text \<open>
  Modelled from the spec: the class \<open>LRU\<close> of the package \<open>lru\<close> is not part of the
  source file. A region is bounded by a maximum entry count and a maximum age; entries
  are kept most recently used first, each with the time it was stored. \<open>get\<close> returns
  the stored value, or \<open>undefined\<close> when the key is absent or its entry is older than
  the age bound; \<open>set\<close> stores a value, evicting by age first and then by capacity;
  \<open>clear\<close> empties the region.
\<close>

record lru =
  lru_max :: nat
  lru_maxAge :: int
  lru_entries :: "(string \<times> jsval \<times> int) list"

definition new_LRU :: "nat \<Rightarrow> int \<Rightarrow> lru" where
  "new_LRU mx age = \<lparr> lru_max = mx, lru_maxAge = age, lru_entries = [] \<rparr>"

definition lru_live :: "int \<Rightarrow> lru \<Rightarrow> string \<Rightarrow> bool" where
  "lru_live now c k =
     (case map_of (lru_entries c) k of
        None \<Rightarrow> False
      | Some (v, t) \<Rightarrow> now - t \<le> lru_maxAge c)"

definition lru_get :: "int \<Rightarrow> string \<Rightarrow> lru \<Rightarrow> jsval \<times> lru" where
  "lru_get now k c =
     (case map_of (lru_entries c) k of
        None \<Rightarrow> (JUndefined, c)
      | Some (v, t) \<Rightarrow>
          if now - t \<le> lru_maxAge c
          then (v, c\<lparr> lru_entries := (k, v, t) # filter (\<lambda>e. fst e \<noteq> k) (lru_entries c) \<rparr>)
          else (JUndefined, c))"

definition lru_set :: "int \<Rightarrow> string \<Rightarrow> jsval \<Rightarrow> lru \<Rightarrow> lru" where
  "lru_set now k v c =
     c\<lparr> lru_entries :=
          take (lru_max c)
            ((k, v, now) #
             filter (\<lambda>e. fst e \<noteq> k \<and> now - snd (snd e) \<le> lru_maxAge c) (lru_entries c)) \<rparr>"

definition lru_clear :: "lru \<Rightarrow> lru" where
  "lru_clear c = c\<lparr> lru_entries := [] \<rparr>"

section \<open>The link: configuration, registry and cache\<close>

datatype rtype = Lookup | Announce | Put | Get

fun type_name :: "rtype \<Rightarrow> string" where
  "type_name Lookup = ''lookup''"
| "type_name Announce = ''announce''"
| "type_name Put = ''put''"
| "type_name Get = ''get''"

record conf =
  grape :: string
  monitorTimeout :: nat
  requestTimeout :: nat
  lruMaxSizeLookup :: nat
  lruMaxAgeLookup :: int

definition default_conf :: conf where
  "default_conf = \<lparr> grape = [], monitorTimeout = 2000, requestTimeout = 2500,
                    lruMaxSizeLookup = 2500, lruMaxAgeLookup = 10000 \<rparr>"

text \<open>The options of a request: \<open>None\<close> is a property that is not set.\<close>

record req_opts =
  retry :: "nat option"
  timeout :: "nat option"

definition no_opts :: req_opts where
  "no_opts = \<lparr> retry = None, timeout = None \<rparr>"

text \<open>A callback is a function value the link stores and later calls; \<open>Fn n\<close> is the
  caller's function number \<open>n\<close>, \<open>Noop\<close> is \<open>() => { }\<close>.\<close>

datatype callback = Fn nat | Noop

type_synonym rid = string

record req =
  req_rid :: rid
  req_type :: rtype
  req_payload :: jsval
  req_opts :: req_opts
  req_cb :: callback
  req_ts :: int
  req_qhash :: string

record link =
  conf :: conf
  cache :: "rtype \<Rightarrow> lru option"
  reqs :: "req list"
  announces :: "(string \<times> nat) list"

text \<open>\<open>init\<close>: one cache region for each of the types in \<open>['lookup']\<close>, an empty
  registry and no announce descriptor.\<close>

definition init :: "conf \<Rightarrow> link" where
  "init cf =
     \<lparr> conf = cf,
       cache = (\<lambda>t. None)(Lookup := Some (new_LRU (lruMaxSizeLookup cf) (lruMaxAgeLookup cf))),
       reqs = [],
       announces = [] \<rparr>"

text \<open>\<open>getRequestHash\<close>: the type, a colon, and \<open>JSON.stringify(payload)\<close>. The
  built-in \<open>JSON.stringify\<close> is the parameter \<open>js\<close>.\<close>

definition getRequestHash :: "(jsval \<Rightarrow> string) \<Rightarrow> rtype \<Rightarrow> jsval \<Rightarrow> string" where
  "getRequestHash js t payload = type_name t @ '':'' @ js payload"

text \<open>\<open>newRequest\<close>: \<open>rid\<close> is the identifier \<open>uuidv4()\<close> returns and \<open>now\<close> the value
  of \<open>Date.now()\<close>; \<open>cb\<close> is \<open>None\<close> when the argument is not a function.\<close>

definition newRequest ::
  "(jsval \<Rightarrow> string) \<Rightarrow> rid \<Rightarrow> int \<Rightarrow> rtype \<Rightarrow> jsval \<Rightarrow> req_opts \<Rightarrow> callback option \<Rightarrow> req" where
  "newRequest js rid now t payload opts cb =
     \<lparr> req_rid = rid, req_type = t, req_payload = payload, req_opts = opts,
       req_cb = (case cb of Some f \<Rightarrow> f | None \<Rightarrow> Noop),
       req_ts = now,
       req_qhash = getRequestHash js t payload \<rparr>"

text \<open>\<open>_reqs\<close> is a \<open>Map\<close> whose only writer is \<open>addRequest\<close>, which stores a
  request under its own \<open>rid\<close>. It is kept as the list of its values in insertion
  order, every request found under its \<open>req_rid\<close>: \<open>set\<close> replaces the value of a
  key that is present and appends a new key, \<open>delete\<close> removes the key, \<open>get\<close> reads
  it.\<close>

fun reqs_set :: "req \<Rightarrow> req list \<Rightarrow> req list" where
  "reqs_set r [] = [r]"
| "reqs_set r (x # xs) = (if req_rid x = req_rid r then r # xs else x # reqs_set r xs)"

definition addRequest :: "req \<Rightarrow> link \<Rightarrow> link" where
  "addRequest r lk = lk\<lparr> reqs := reqs_set r (reqs lk) \<rparr>"

definition delRequest :: "req \<Rightarrow> link \<Rightarrow> link" where
  "delRequest r lk = lk\<lparr> reqs := filter (\<lambda>x. req_rid x \<noteq> req_rid r) (reqs lk) \<rparr>"

definition getRequest :: "rid \<Rightarrow> link \<Rightarrow> req option" where
  "getRequest rid lk = find (\<lambda>x. req_rid x = rid) (reqs lk)"

text \<open>\<open>handleReply\<close>. The result is the link after the call and the callback
  invocation the call ends with: \<open>None\<close> when the function returns at the lookup,
  \<open>Some (f, err, data)\<close> for \<open>req.cb(err, data)\<close>, which runs on the returned link.
  \<open>now\<close> is the clock the cache region reads when it stores.\<close>

definition handleReply ::
  "int \<Rightarrow> rid \<Rightarrow> jsval \<Rightarrow> jsval \<Rightarrow> link \<Rightarrow> link \<times> (callback \<times> jsval \<times> jsval) option" where
  "handleReply now rid err data lk =
     (case getRequest rid lk of
        None \<Rightarrow> (lk, None)
      | Some r \<Rightarrow>
          let lk1 =
                (if \<not> truthy err \<and> truthy data
                 then (case cache lk (req_type r) of
                         Some c \<Rightarrow>
                           lk\<lparr> cache := (cache lk)(req_type r := Some (lru_set now (req_qhash r) data c)) \<rparr>
                       | None \<Rightarrow> lk)
                 else lk)
          in (delRequest r lk1, Some (req_cb r, err, data)))"

section \<open>Replies that arrive while a callback runs\<close>

text \<open>
  A callback is code of the caller, and it may call back into the link before it
  returns. What the caller's function number \<open>n\<close> does when it is called with
  \<open>(err, data)\<close> on the link \<open>lk\<close> is the list of replies it hands to
  \<open>handleReply\<close>, in order; such a list is a \<open>behaviour\<close>. \<open>dispatch\<close> runs a list
  of replies the way the call stack does: the replies a callback makes run to their end
  before the reply after it. The trace records every callback invocation with the
  correlation id it was made for.
\<close>

datatype act = Reply int rid jsval jsval

type_synonym behaviour = "nat \<Rightarrow> jsval \<Rightarrow> jsval \<Rightarrow> link \<Rightarrow> act list"

type_synonym trace = "(rid \<times> callback \<times> jsval \<times> jsval) list"

fun cb_acts :: "behaviour \<Rightarrow> callback \<Rightarrow> jsval \<Rightarrow> jsval \<Rightarrow> link \<Rightarrow> act list" where
  "cb_acts beh (Fn n) e d lk = beh n e d lk"
| "cb_acts beh Noop e d lk = []"

lemma find_filter_shorter:
  "find P xs = Some v \<Longrightarrow> length (filter (\<lambda>x. \<not> P x) xs) < length xs"
  by (induction xs) (auto split: if_splits simp: less_Suc_eq_le)

lemma getRequest_rid: "getRequest rid lk = Some r \<Longrightarrow> req_rid r = rid"
  by (auto simp: getRequest_def dest: find_Some_iff[THEN iffD1])

lemma handleReply_None:
  "handleReply now rid err data lk = (lk', None) \<Longrightarrow> lk' = lk"
  by (auto simp: handleReply_def Let_def split: option.splits)

lemma handleReply_Some_shorter:
  assumes "handleReply now rid err data lk = (lk', Some c)"
  shows "length (reqs lk') < length (reqs lk)"
proof -
  from assms obtain r where r: "getRequest rid lk = Some r"
    by (auto simp: handleReply_def split: option.splits)
  then have "req_rid r = rid"
    by (rule getRequest_rid)
  with r have "length (filter (\<lambda>x. req_rid x \<noteq> req_rid r) (reqs lk)) < length (reqs lk)"
    using find_filter_shorter[of "\<lambda>x. req_rid x = rid" "reqs lk" r] by (simp add: getRequest_def)
  moreover from assms r have "reqs lk' = filter (\<lambda>x. req_rid x \<noteq> req_rid r) (reqs lk)"
    by (auto simp: handleReply_def Let_def delRequest_def split: option.splits if_splits)
  ultimately show ?thesis by simp
qed

function dispatch :: "behaviour \<Rightarrow> act list \<Rightarrow> link \<Rightarrow> trace \<Rightarrow> link \<times> trace" where
  "dispatch beh [] lk tr = (lk, tr)"
| "dispatch beh (Reply now rid err data # rest) lk tr =
     (case handleReply now rid err data lk of
        (lk', None) \<Rightarrow> dispatch beh rest lk' tr
      | (lk', Some (f, e, d)) \<Rightarrow>
          dispatch beh (cb_acts beh f e d lk' @ rest) lk' (tr @ [(rid, f, e, d)]))"
  by pat_completeness auto
termination
  apply (relation "measures [\<lambda>(beh, acts, lk, tr). length (reqs lk), \<lambda>(beh, acts, lk, tr). length acts]")
    apply simp
   apply (auto dest: handleReply_None handleReply_Some_shorter sym)
  done

text \<open>How often a callback was invoked for a correlation id.\<close>

definition fired :: "rid \<Rightarrow> trace \<Rightarrow> nat" where
  "fired rid tr = length (filter (\<lambda>e. fst e = rid) tr)"

text \<open>The cache regions \<open>init\<close> makes: one, for \<open>lookup\<close>.\<close>

definition regions_ok :: "link \<Rightarrow> bool" where
  "regions_ok lk = (\<forall>t. (cache lk t = None) = (t \<noteq> Lookup))"

section \<open>The transport\<close>

text \<open>
  \<open>post\<close> begins one exchange with \<open>request.post\<close>; a \<open>post\<close> record is the exchange
  as it was begun. The transport later calls the function \<open>post\<close> gave it with
  \<open>(err, res, resData)\<close>, where \<open>res\<close> is the response (\<open>None\<close> when there is none)
  and \<open>resData\<close> the parsed body; \<open>post_cb\<close> is that function. A call of a callback
  completes in one of three ways: the callback is called (\<open>Calls\<close>), an exception
  escapes before it is (\<open>Throws\<close>), or nothing happens any more (\<open>Never\<close>).
\<close>

datatype exn = TypeError | ReferenceError | Error string

datatype 'a completion = Calls 'a | Throws exn | Never

record response =
  statusCode :: nat

record post =
  post_url :: string
  post_rid :: rid
  post_data :: jsval
  post_timeout :: "nat option"

text \<open>The decimal digits of a status code, as the regular expression test reads it.\<close>

definition digit_char :: "nat \<Rightarrow> char" where
  "digit_char n = ''0123456789'' ! (n mod 10)"

fun show_nat :: "nat \<Rightarrow> string" where
  "show_nat n = (if n < 10 then [digit_char n] else show_nat (n div 10) @ [digit_char n])"

text \<open>\<open>/^2..$/.test(s)\<close>: three characters, the first a \<open>2\<close>, the other two anything
  but a line terminator.\<close>

definition line_terminator :: "char \<Rightarrow> bool" where
  "line_terminator c = (c = CHR 0x0A \<or> c = CHR 0x0D)"

fun test_2xx :: "string \<Rightarrow> bool" where
  "test_2xx [a, b, c] = (a = CHR ''2'' \<and> \<not> line_terminator b \<and> \<not> line_terminator c)"
| "test_2xx s = False"

definition post_cb ::
  "jsval \<Rightarrow> response option \<Rightarrow> jsval \<Rightarrow> (jsval \<times> response option \<times> jsval) completion" where
  "post_cb err res resData =
     (if truthy err \<and> code_of err = JStr ''ETIMEDOUT''
      then (case res of
              None \<Rightarrow> Throws TypeError
            | Some r \<Rightarrow> Calls (JError (JStr ''ERR_TIMEOUT'') (JNum (int (statusCode r))), None, JUndefined))
      else (case res of
              Some r \<Rightarrow>
                if \<not> test_2xx (show_nat (statusCode r))
                then Calls (JError resData (JNum (int (statusCode r))), None, JUndefined)
                else Calls (err, res, resData)
            | None \<Rightarrow> Calls (err, res, resData)))"

section \<open>One attempt\<close>

text \<open>
  \<open>_request\<close>, here \<open>u_request\<close>. It either calls \<open>cb(null, cval)\<close> at once with the
  value the cache region holds (\<open>Hit\<close>), or registers a new request and begins an
  exchange (\<open>Sent\<close>, with the request and the exchange). \<open>rid\<close> and \<open>now\<close> are what
  \<open>uuidv4()\<close> and the clock give during the call.
\<close>

datatype started = Hit jsval | Sent req post

definition u_request ::
  "(jsval \<Rightarrow> string) \<Rightarrow> rid \<Rightarrow> int \<Rightarrow> rtype \<Rightarrow> jsval \<Rightarrow> req_opts \<Rightarrow> callback \<Rightarrow> link
     \<Rightarrow> link \<times> started" where
  "u_request js rid now t payload opts0 cb lk =
     (let opts = opts0\<lparr> timeout := (case timeout opts0 of
                                        None \<Rightarrow> Some (requestTimeout (conf lk))
                                      | Some ms \<Rightarrow> Some ms) \<rparr>;
          send = (\<lambda>lk1.
            let r = newRequest js rid now t payload opts (Some cb)
            in (addRequest r lk1,
                Sent r \<lparr> post_url = grape (conf lk1) @ ''/'' @ type_name t,
                         post_rid = req_rid r, post_data = req_payload r,
                         post_timeout = timeout opts \<rparr>))
      in case cache lk t of
           Some c \<Rightarrow>
             (case lru_get now (getRequestHash js t payload) c of
                (cval, c') \<Rightarrow>
                  let lk1 = lk\<lparr> cache := (cache lk)(t := Some c') \<rparr>
                  in if truthy cval then (lk1, Hit cval) else send lk1)
         | None \<Rightarrow> send lk)"

text \<open>
  The world around the link, for runs in which every exchange is answered before
  anything else happens: the heap of the caller's objects, the exchanges begun so far,
  and what the environment will supply to the attempts to come, one \<open>tick\<close> for each:
  the identifier and the clock of the attempt, the transport's answer to its exchange,
  and the clock when the answer is dispatched.
\<close>

record tick =
  tk_rid :: rid
  tk_now :: int
  tk_err :: jsval
  tk_res :: "response option"
  tk_body :: jsval
  tk_later :: int

record world =
  w_link :: link
  w_heap :: "nat \<Rightarrow> (string \<times> jsval) list"
  w_posts :: "post list"
  w_ticks :: "tick list"

text \<open>\<open>JSON.stringify\<close> reads the object a reference points to.\<close>

definition deref :: "(nat \<Rightarrow> (string \<times> jsval) list) \<Rightarrow> jsval \<Rightarrow> jsval" where
  "deref h v = (case v of JRef a \<Rightarrow> JObj (h a) | _ \<Rightarrow> v)"

text \<open>
  One attempt run to its completion: \<open>_request\<close>, and when it began an exchange, the
  transport's answer through \<open>post_cb\<close> into \<open>handleReply\<close>, which calls the callback
  of the request. \<open>k\<close> is the function the retry executor passes as the callback of
  the attempt. Without a tick the attempt never completes.
\<close>

definition attempt ::
  "(jsval \<Rightarrow> string) \<Rightarrow> callback \<Rightarrow> rtype \<Rightarrow> jsval \<Rightarrow> req_opts \<Rightarrow> world
     \<Rightarrow> world \<times> (jsval \<times> jsval) completion" where
  "attempt js k t payload opts w =
     (case w_ticks w of
        [] \<Rightarrow> (w, Never)
      | tk # tks \<Rightarrow>
          (case u_request (\<lambda>v. js (deref (w_heap w) v)) (tk_rid tk) (tk_now tk) t payload opts k
                  (w_link w) of
             (lk, Hit cval) \<Rightarrow> (w\<lparr> w_link := lk, w_ticks := tks \<rparr>, Calls (JNull, cval))
           | (lk, Sent r p) \<Rightarrow>
               let w1 = w\<lparr> w_link := lk, w_posts := w_posts w @ [p], w_ticks := tks \<rparr>
               in (case post_cb (tk_err tk) (tk_res tk) (tk_body tk) of
                     Calls (err, rep, msg) \<Rightarrow>
                       (case handleReply (tk_later tk) (req_rid r) err msg lk of
                          (lk', Some (f, e, d)) \<Rightarrow> (w1\<lparr> w_link := lk' \<rparr>, Calls (e, d))
                        | (lk', None) \<Rightarrow> (w1\<lparr> w_link := lk' \<rparr>, Never))
                   | Throws x \<Rightarrow> (w1, Throws x)
                   | Never \<Rightarrow> (w1, Never))))"

section \<open>The retry executor and the request engine\<close>

text \<open>
  Modelled from the spec: \<open>async.retry\<close> of the package \<open>async\<close> is not part of the
  source file. \<open>retry(maxAttempts, attemptFn, done)\<close> invokes the attempt up to
  \<open>maxAttempts\<close> times, one after the other, each on the state the one before left,
  stops at the first success, and hands \<open>done\<close> the last failure when all attempts
  fail. The first attempt is always made. A failure is a call of the attempt's callback
  with a truthy error. The result is the state, what \<open>done\<close> receives, and the number
  of times the attempt was invoked.
\<close>

fun async_retry ::
  "nat \<Rightarrow> ('s \<Rightarrow> 's \<times> (jsval \<times> jsval) completion) \<Rightarrow> 's
     \<Rightarrow> 's \<times> (jsval \<times> jsval) completion \<times> nat" where
  "async_retry n task s =
     (case task s of
        (s', Calls (err, res)) \<Rightarrow>
          if truthy err \<and> 1 < n
          then (case async_retry (n - 1) task s' of (s'', c, m) \<Rightarrow> (s'', c, Suc m))
          else (s', Calls (err, res), 1)
      | (s', c) \<Rightarrow> (s', c, 1))"

text \<open>\<open>request\<close>: the attempt count is \<open>_opts.retry || 1\<close>.\<close>

definition retry_count :: "req_opts \<Rightarrow> nat" where
  "retry_count opts = (case retry opts of None \<Rightarrow> 1 | Some n \<Rightarrow> if n = 0 then 1 else n)"

definition request ::
  "(jsval \<Rightarrow> string) \<Rightarrow> callback \<Rightarrow> rtype \<Rightarrow> jsval \<Rightarrow> req_opts \<Rightarrow> world
     \<Rightarrow> world \<times> (jsval \<times> jsval) completion \<times> nat" where
  "request js k t payload opts w = async_retry (retry_count opts) (attempt js k t payload opts) w"

section \<open>The operations\<close>

text \<open>
  Each operation returns the world after it and the way it completes; \<open>Calls (e, d)\<close>
  is the call of the caller's callback with \<open>(e, d)\<close>, an argument left out being
  \<open>undefined\<close>. The options are the form with an options object; \<open>lookup(key, cb)\<close>
  and \<open>announce(key, port, cb)\<close> call it with none set.
\<close>

definition with_retry3 :: "req_opts \<Rightarrow> req_opts" where
  "with_retry3 opts = opts\<lparr> retry := (case retry opts of None \<Rightarrow> Some 3 | Some n \<Rightarrow> Some n) \<rparr>"

text \<open>The function \<open>lookup\<close> passes to \<open>request\<close>, as what it calls \<open>cb\<close> with.\<close>

definition lookup_cb :: "jsval \<Rightarrow> jsval \<Rightarrow> jsval \<times> jsval" where
  "lookup_cb err res =
     (if truthy err then (err, JUndefined)
      else if \<not> isArray res \<or> arr_length res = 0
      then (JError (JStr ''ERR_GRAPE_LOOKUP_EMPTY'') JUndefined, JUndefined)
      else (JNull, res))"

definition lookup ::
  "(jsval \<Rightarrow> string) \<Rightarrow> callback \<Rightarrow> jsval \<Rightarrow> req_opts \<Rightarrow> world
     \<Rightarrow> world \<times> (jsval \<times> jsval) completion" where
  "lookup js k key opts w =
     (case request js k Lookup key (with_retry3 opts) w of
        (w', Calls (err, res), n) \<Rightarrow> (w', Calls (lookup_cb err res))
      | (w', Throws x, n) \<Rightarrow> (w', Throws x)
      | (w', Never, n) \<Rightarrow> (w', Never))"

definition announce ::
  "(jsval \<Rightarrow> string) \<Rightarrow> callback \<Rightarrow> string \<Rightarrow> nat \<Rightarrow> req_opts \<Rightarrow> world
     \<Rightarrow> world \<times> (jsval \<times> jsval) completion" where
  "announce js k key port opts w =
     (case request js k Announce (JArr [JStr key, JNum (int port)]) (with_retry3 opts) w of
        (w', c, n) \<Rightarrow> (w', c))"

definition put ::
  "(jsval \<Rightarrow> string) \<Rightarrow> callback \<Rightarrow> jsval \<Rightarrow> callback option \<Rightarrow> world
     \<Rightarrow> world \<times> (jsval \<times> jsval) completion" where
  "put js k opts cb w =
     (if \<not> truthy opts \<or> cb = None then (w, Throws (Error ''ERR_MISSING_ARGS''))
      else (case request js k Put opts no_opts w of (w', c, n) \<Rightarrow> (w', c)))"

definition get ::
  "(jsval \<Rightarrow> string) \<Rightarrow> callback \<Rightarrow> jsval \<Rightarrow> world \<Rightarrow> world \<times> (jsval \<times> jsval) completion" where
  "get js k hash w = (case request js k Get hash no_opts w of (w', c, n) \<Rightarrow> (w', c))"

text \<open>
  \<open>putMutable\<close>. \<open>data\<close> is the address of the caller's object, or \<open>None\<close> when the
  argument is missing; the keys are buffers, \<open>None\<close> when missing. \<open>bencode\<close> is
  \<open>bencode.encode\<close> of the package \<open>bencode\<close>. The file binds no name \<open>ed\<close>: it
  requires no module under that name and declares none, so \<open>ed\<close> is \<open>None\<close> unless
  the host defines a global of that name, whose \<open>sign\<close> it then is; reading a name
  that is not bound throws a \<open>ReferenceError\<close>. A string and the bytes of its
  encoding are the same list here.
\<close>

record key_pair =
  publicKey :: "nat list option"
  secretKey :: "nat list option"

record pm_opts =
  keys :: "key_pair option"

definition obj_get :: "(string \<times> jsval) list \<Rightarrow> string \<Rightarrow> jsval" where
  "obj_get fs p = (case map_of fs p of Some v \<Rightarrow> v | None \<Rightarrow> JUndefined)"

fun map_set :: "'k \<Rightarrow> 'v \<Rightarrow> ('k \<times> 'v) list \<Rightarrow> ('k \<times> 'v) list" where
  "map_set k v [] = [(k, v)]"
| "map_set k v (p # ps) = (if fst p = k then (k, v) # ps else p # map_set k v ps)"

definition map_delete :: "'k \<Rightarrow> ('k \<times> 'v) list \<Rightarrow> ('k \<times> 'v) list" where
  "map_delete k ps = filter (\<lambda>p. fst p \<noteq> k) ps"

definition hex_digit :: "nat \<Rightarrow> char" where
  "hex_digit n = ''0123456789abcdef'' ! (n mod 16)"

definition to_hex :: "nat list \<Rightarrow> string" where
  "to_hex bs = concat (map (\<lambda>b. [hex_digit (b div 16), hex_digit b]) bs)"

definition putMutable ::
  "((string \<times> jsval) list \<Rightarrow> nat list) \<Rightarrow> (nat list \<Rightarrow> nat list \<Rightarrow> nat list \<Rightarrow> nat list) option
     \<Rightarrow> (jsval \<Rightarrow> string) \<Rightarrow> callback
     \<Rightarrow> nat option \<Rightarrow> pm_opts option \<Rightarrow> callback option \<Rightarrow> world
     \<Rightarrow> world \<times> (jsval \<times> jsval) completion" where
  "putMutable bencode ed js k data opts cb w =
     (case (data, opts, cb) of
        (Some a, Some os, Some f) \<Rightarrow>
          if \<not> truthy (obj_get (w_heap w a) ''seq'')
          then (w, Calls (JError (JStr ''ERR_MISSING_SEQ'') JUndefined, JUndefined))
          else (case keys os of
                  None \<Rightarrow> (w, Throws TypeError)
                | Some kp \<Rightarrow>
                    (case (publicKey kp, secretKey kp) of
                       (Some pk, Some sk) \<Rightarrow>
                         let w1 = w\<lparr> w_heap := (w_heap w)
                                     (a := map_set ''k'' (JStr (to_hex pk)) (w_heap w a)) \<rparr>;
                             obj = w_heap w1 a;
                             toEncode = [(''seq'', obj_get obj ''seq''), (''v'', obj_get obj ''v'')]
                                        @ (if truthy (obj_get obj ''salt'')
                                           then [(''salt'', obj_get obj ''salt'')] else []);
                             encoded = butlast (tl (bencode toEncode))
                         in (case ed of
                               None \<Rightarrow> (w1, Throws ReferenceError)
                             | Some sign \<Rightarrow>
                                 put js k (JRef a) cb
                                   (w1\<lparr> w_heap := (w_heap w1)
                                          (a := map_set ''sig'' (JStr (to_hex (sign encoded pk sk)))
                                                  (w_heap w1 a)) \<rparr>))
                     | _ \<Rightarrow> (w, Calls (JError (JStr ''ERR_MISSING_KEY'') JUndefined, JUndefined))))
      | _ \<Rightarrow> (w, Throws (Error ''ERR_MISSING_ARGS'')))"

section \<open>The announce scheduler\<close>

text \<open>
  \<open>startAnnouncing\<close> makes an object \<open>info\<close> and two functions, \<open>ann\<close> and \<open>reann\<close>,
  that share it and the variables \<open>key\<close>, \<open>port\<close>, \<open>interval\<close> and \<open>cb\<close>. An
  \<open>announcer\<close> is that closure: the variables and the two fields of \<open>info\<close>. It lives
  at an address of a heap of its own, because \<open>_announces\<close>, pending timers and
  announce calls in flight all refer to the same one. \<open>_announces\<close> maps the identity
  key to the address.

  The scheduler state is the link and the runtime around it: the heap of announcers
  with the next free address, the pending timers (handle and announcer) with the next
  fresh handle, and the announce calls that were begun and have not completed yet. Two
  logs record every \<open>setTimeout\<close> (announcer, handle, delay) and every call of a
  caller's callback. An \<open>announce\<close> call completes later, at most once, by calling
  \<open>reann\<close>; timers fire later, if they are still pending.
\<close>

record ann_opts =
  interval :: "nat option"

record announcer =
  an_key :: string
  an_port :: nat
  an_interval :: nat
  an_cb :: "callback option"
  an_timeout :: "nat option"
  an_stopped :: bool

record sched =
  s_link :: link
  s_heap :: "nat \<Rightarrow> announcer"
  s_next :: nat
  s_timers :: "(nat \<times> nat) list"
  s_next_timer :: nat
  s_inflight :: "nat list"
  s_scheduled :: "(nat \<times> nat \<times> nat) list"
  s_called :: "(callback \<times> jsval) list"

text \<open>The identity key \<open>port + ':' + key\<close>, the port being a number.\<close>

definition ident :: "string \<Rightarrow> nat \<Rightarrow> string" where
  "ident key port = show_nat port @ '':'' @ key"

text \<open>\<open>(opts && opts.interval) || 2 * 60 * 1000\<close>\<close>

definition interval_of :: "ann_opts option \<Rightarrow> nat" where
  "interval_of opts =
     (case opts of
        None \<Rightarrow> 120000
      | Some os \<Rightarrow> (case interval os of None \<Rightarrow> 120000 | Some i \<Rightarrow> if i = 0 then 120000 else i))"

text \<open>\<open>ann\<close>: an \<open>announce\<close> call is begun, with \<open>reann\<close> as its callback.\<close>

definition ann :: "nat \<Rightarrow> sched \<Rightarrow> sched" where
  "ann r s = s\<lparr> s_inflight := s_inflight s @ [r] \<rparr>"

text \<open>\<open>reann\<close>, called with \<open>err\<close>; \<open>rnd\<close> is the value \<open>Math.random()\<close> returns.\<close>

definition reann :: "nat \<Rightarrow> jsval \<Rightarrow> rat \<Rightarrow> sched \<Rightarrow> sched" where
  "reann r err rnd s =
     (let a = s_heap s r;
          s1 = (case an_cb a of
                  Some f \<Rightarrow> s\<lparr> s_called := s_called s @ [(f, err)] \<rparr>
                | None \<Rightarrow> s);
          s2 = s1\<lparr> s_heap := (s_heap s1)(r := a\<lparr> an_cb := None \<rparr>) \<rparr>
      in if an_stopped a then s2
         else
           let ms = nat \<lceil>(1 / 2) * of_nat (an_interval a) + rnd * of_nat (an_interval a)\<rceil>;
               h = s_next_timer s2
           in s2\<lparr> s_timers := s_timers s2 @ [(h, r)],
                   s_next_timer := Suc h,
                   s_scheduled := s_scheduled s2 @ [(r, h, ms)],
                   s_heap := (s_heap s2)(r := (s_heap s2 r)\<lparr> an_timeout := Some h \<rparr>) \<rparr>)"

definition startAnnouncing ::
  "string \<Rightarrow> nat \<Rightarrow> ann_opts option \<Rightarrow> callback option \<Rightarrow> sched \<Rightarrow> sched \<times> jsval" where
  "startAnnouncing key port opts cb s =
     (let idk = ident key port
      in if map_of (announces (s_link s)) idk \<noteq> None then (s, JBool False)
         else
           let r = s_next s;
               a = \<lparr> an_key = key, an_port = port, an_interval = interval_of opts, an_cb = cb,
                     an_timeout = None, an_stopped = False \<rparr>;
               s1 = s\<lparr> s_heap := (s_heap s)(r := a), s_next := Suc r \<rparr>;
               s2 = ann r s1
           in (s2\<lparr> s_link := (s_link s2)\<lparr> announces := map_set idk r (announces (s_link s2)) \<rparr> \<rparr>,
               JUndefined))"

text \<open>\<open>clearTimeout\<close> of the value of \<open>info.timeout\<close>; \<open>null\<close> and a handle that is
  not pending clear nothing.\<close>

definition clearTimeout :: "nat option \<Rightarrow> sched \<Rightarrow> sched" where
  "clearTimeout h s =
     (case h of
        None \<Rightarrow> s
      | Some n \<Rightarrow> s\<lparr> s_timers := filter (\<lambda>t. fst t \<noteq> n) (s_timers s) \<rparr>)"

text \<open>The two statements \<open>stopAnnouncing\<close> and \<open>stop\<close> apply to an \<open>info\<close>.\<close>

definition halt :: "nat \<Rightarrow> sched \<Rightarrow> sched" where
  "halt r s =
     (let s1 = s\<lparr> s_heap := (s_heap s)(r := (s_heap s r)\<lparr> an_stopped := True \<rparr>) \<rparr>
      in clearTimeout (an_timeout (s_heap s1 r)) s1)"

definition stopAnnouncing :: "string \<Rightarrow> nat \<Rightarrow> sched \<Rightarrow> sched \<times> jsval" where
  "stopAnnouncing key port s =
     (let idk = ident key port
      in case map_of (announces (s_link s)) idk of
           None \<Rightarrow> (s, JBool False)
         | Some r \<Rightarrow>
             (halt r (s\<lparr> s_link := (s_link s)\<lparr> announces := map_delete idk (announces (s_link s)) \<rparr> \<rparr>),
              JUndefined))"

text \<open>\<open>stop\<close>: every cache region is cleared, every announcer in \<open>_announces\<close> is
  halted, and \<open>_announces\<close> is emptied.\<close>

fun halt_all :: "nat list \<Rightarrow> sched \<Rightarrow> sched" where
  "halt_all [] s = s"
| "halt_all (r # rs) s = halt_all rs (halt r s)"

definition stop :: "sched \<Rightarrow> sched" where
  "stop s =
     (let s1 = s\<lparr> s_link := (s_link s)\<lparr> cache := (\<lambda>t. map_option lru_clear (cache (s_link s) t)) \<rparr> \<rparr>;
          s2 = halt_all (map snd (announces (s_link s1))) s1
      in s2\<lparr> s_link := (s_link s2)\<lparr> announces := [] \<rparr> \<rparr>)"

text \<open>What happens to a scheduler: the calls of the caller, a timer that fires (when
  it is still pending, \<open>ann\<close> runs), and the completion of the announce call at a
  position of the calls in flight, with its error and the random number drawn.\<close>

datatype event =
    StartAnnouncing string nat "ann_opts option" "callback option"
  | StopAnnouncing string nat
  | Stop
  | TimerFires nat
  | AnnounceDone nat jsval rat

fun step :: "sched \<Rightarrow> event \<Rightarrow> sched" where
  "step s (StartAnnouncing key port opts cb) = fst (startAnnouncing key port opts cb s)"
| "step s (StopAnnouncing key port) = fst (stopAnnouncing key port s)"
| "step s Stop = stop s"
| "step s (TimerFires h) =
     (case map_of (s_timers s) h of
        None \<Rightarrow> s
      | Some r \<Rightarrow> ann r (s\<lparr> s_timers := filter (\<lambda>t. fst t \<noteq> h) (s_timers s) \<rparr>))"
| "step s (AnnounceDone i err rnd) =
     (if i < length (s_inflight s)
      then reann (s_inflight s ! i) err rnd
             (s\<lparr> s_inflight := take i (s_inflight s) @ drop (Suc i) (s_inflight s) \<rparr>)
      else s)"

definition run :: "event list \<Rightarrow> sched \<Rightarrow> sched" where
  "run evs s = foldl step s evs"

definition sched_init :: "conf \<Rightarrow> sched" where
  "sched_init cf =
     \<lparr> s_link = init cf,
       s_heap = (\<lambda>r. \<lparr> an_key = [], an_port = 0, an_interval = 0, an_cb = None,
                        an_timeout = None, an_stopped = True \<rparr>),
       s_next = 0, s_timers = [], s_next_timer = 0, s_inflight = [],
       s_scheduled = [], s_called = [] \<rparr>"

text \<open>The timers scheduled so far for an announcer, and the live announcers of an
  identity key: those allocated and not stopped.\<close>

definition scheduled_for :: "nat \<Rightarrow> sched \<Rightarrow> (nat \<times> nat \<times> nat) list" where
  "scheduled_for r s = filter (\<lambda>e. fst e = r) (s_scheduled s)"

definition pending_for :: "nat \<Rightarrow> sched \<Rightarrow> (nat \<times> nat) list" where
  "pending_for r s = filter (\<lambda>t. snd t = r) (s_timers s)"

definition live :: "sched \<Rightarrow> string \<Rightarrow> nat list" where
  "live s idk =
     filter (\<lambda>r. \<not> an_stopped (s_heap s r) \<and> ident (an_key (s_heap s r)) (an_port (s_heap s r)) = idk)
       [0..<s_next s]"

text \<open>What holds of every scheduler state that the events lead to: a pending timer is
  the one its announcer's \<open>info.timeout\<close> names, of an announcer that is not stopped
  and has no call in flight; no announcer has two calls in flight; addresses and
  handles in use are below the next free ones; \<open>_announces\<close> holds exactly the live
  announcers, each under its identity key.\<close>

definition sched_inv :: "sched \<Rightarrow> bool" where
  "sched_inv s =
     ((\<forall>t \<in> set (s_timers s).
          fst t < s_next_timer s \<and> snd t < s_next s \<and>
          an_timeout (s_heap s (snd t)) = Some (fst t) \<and>
          \<not> an_stopped (s_heap s (snd t)) \<and> snd t \<notin> set (s_inflight s)) \<and>
      distinct (s_inflight s) \<and>
      (\<forall>r \<in> set (s_inflight s). r < s_next s) \<and>
      (\<forall>r. (\<forall>h. an_timeout (s_heap s r) = Some h \<longrightarrow> h < s_next_timer s)) \<and>
      (\<forall>idk r. map_of (announces (s_link s)) idk = Some r \<longrightarrow>
          r < s_next s \<and> \<not> an_stopped (s_heap s r) \<and>
          ident (an_key (s_heap s r)) (an_port (s_heap s r)) = idk) \<and>
      (\<forall>r < s_next s. \<not> an_stopped (s_heap s r) \<longrightarrow>
          map_of (announces (s_link s)) (ident (an_key (s_heap s r)) (an_port (s_heap s r))) = Some r))"

section \<open>Examples\<close>

text \<open>A link with one pending lookup, registered under the id \<open>r1\<close>.\<close>

fun stringify_example :: "jsval \<Rightarrow> string" where
  "stringify_example (JStr s) = [CHR 0x22] @ s @ [CHR 0x22]"
| "stringify_example v = ''null''"

definition example_req :: req where
  "example_req = newRequest stringify_example ''r1'' 0 Lookup (JStr ''k'') no_opts (Some (Fn 0))"

definition example_link :: link where
  "example_link = addRequest example_req (init default_conf)"

text \<open>A callback that, when called, hands the link its own reply again and then one
  more reply for the same id.\<close>

fun reentrant_example :: behaviour where
  "reentrant_example n e d lk = [Reply 1 ''r1'' e d, Reply 2 ''r1'' JNull JNull]"

text \<open>Worlds around a fresh link with the default configuration, and three answers
  of the transport to a lookup: a list of one holder, the empty list, and a timeout.\<close>

definition tick_hosts :: tick where
  "tick_hosts = \<lparr> tk_rid = ''r1'', tk_now = 100, tk_err = JNull,
                  tk_res = Some \<lparr> statusCode = 200 \<rparr>,
                  tk_body = JArr [JStr ''10.0.0.1:1337''], tk_later = 105 \<rparr>"

definition tick_empty :: tick where
  "tick_empty = \<lparr> tk_rid = ''r2'', tk_now = 200, tk_err = JNull,
                  tk_res = Some \<lparr> statusCode = 200 \<rparr>,
                  tk_body = JArr [], tk_later = 205 \<rparr>"

definition tick_timeout :: tick where
  "tick_timeout = \<lparr> tk_rid = ''r4'', tk_now = 300,
                    tk_err = JError (JStr ''connect ETIMEDOUT'') (JStr ''ETIMEDOUT''),
                    tk_res = None, tk_body = JUndefined, tk_later = 2800 \<rparr>"

definition example_world :: "tick list \<Rightarrow> world" where
  "example_world tks = \<lparr> w_link = init default_conf, w_heap = (\<lambda>a. []), w_posts = [],
                         w_ticks = tks \<rparr>"

section \<open>Sequences of attempts\<close>

text \<open>The state before attempt number \<open>i\<close> of a sequence of attempts that starts in
  \<open>s\<close> (counting from 0), the completion of that attempt, and whether a completion is
  a failure or a success.\<close>

definition state_after :: "('s \<Rightarrow> 's \<times> (jsval \<times> jsval) completion) \<Rightarrow> 's \<Rightarrow> nat \<Rightarrow> 's" where
  "state_after task s i = ((\<lambda>x. fst (task x)) ^^ i) s"

definition result_of ::
  "('s \<Rightarrow> 's \<times> (jsval \<times> jsval) completion) \<Rightarrow> 's \<Rightarrow> nat \<Rightarrow> (jsval \<times> jsval) completion" where
  "result_of task s i = snd (task (state_after task s i))"

fun failed :: "(jsval \<times> jsval) completion \<Rightarrow> bool" where
  "failed (Calls (err, res)) = truthy err"
| "failed c = False"

fun succeeded :: "(jsval \<times> jsval) completion \<Rightarrow> bool" where
  "succeeded (Calls (err, res)) = (\<not> truthy err)"
| "succeeded c = False"

text \<open>An attempt that fails twice and then succeeds; the state counts the attempts.\<close>

definition flaky :: "nat \<Rightarrow> nat \<times> (jsval \<times> jsval) completion" where
  "flaky c = (Suc c, if c < 2 then Calls (JError (JStr ''ERR_TIMEOUT'') (JNum (int c)), JUndefined)
                     else Calls (JNull, JStr ''ok''))"

text \<open>A world whose heap holds two objects of the caller, one with a sequence number
  and one without, a pair of keys, and an encoder.\<close>

definition example_keys :: pm_opts where
  "example_keys = \<lparr> keys = Some \<lparr> publicKey = Some [1, 171], secretKey = Some [2, 3] \<rparr> \<rparr>"

definition example_heap_world :: world where
  "example_heap_world =
     \<lparr> w_link = init default_conf,
       w_heap = (\<lambda>a. [])(0 := [(''seq'', JNum 1), (''v'', JStr ''value'')],
                           1 := [(''v'', JStr ''value'')]),
       w_posts = [],
       w_ticks = [tick_hosts] \<rparr>"

definition bencode_example :: "(string \<times> jsval) list \<Rightarrow> nat list" where
  "bencode_example fs = [100, 101]"

section \<open>What the cache holds\<close>

text \<open>Every value a cache region holds is truthy (\<open>handleReply\<close> stores no other),
  and the value a region holds under a key, whatever its age.\<close>

definition cache_ok :: "link \<Rightarrow> bool" where
  "cache_ok lk = (\<forall>t c. cache lk t = Some c \<longrightarrow> (\<forall>e \<in> set (lru_entries c). truthy (fst (snd e))))"

definition lru_peek :: "lru \<Rightarrow> string \<Rightarrow> jsval option" where
  "lru_peek c k = map_option fst (map_of (lru_entries c) k)"

text \<open>A later tick, and a world whose lookup region holds the holders of the key
  \<open>k\<close> since time 105.\<close>

definition tick_again :: tick where
  "tick_again = \<lparr> tk_rid = ''r3'', tk_now = 5000, tk_err = JNull,
                  tk_res = Some \<lparr> statusCode = 200 \<rparr>,
                  tk_body = JArr [JStr ''10.0.0.2:1337''], tk_later = 5005 \<rparr>"

definition cached_region :: lru where
  "cached_region = \<lparr> lru_max = 2500, lru_maxAge = 10000,
       lru_entries = [(getRequestHash stringify_example Lookup (JStr ''k''),
                       JArr [JStr ''10.0.0.1:1337''], 105)] \<rparr>"

definition cached_world :: world where
  "cached_world =
     \<lparr> w_link = (init default_conf)\<lparr> cache := (\<lambda>t. None)(Lookup := Some cached_region) \<rparr>,
       w_heap = (\<lambda>a. []), w_posts = [], w_ticks = [tick_again] \<rparr>"

text \<open>An announcer that will never get a timer again: it is allocated, stopped, and
  has no pending timer. And the two halves of \<open>sched_inv\<close>.\<close>

definition dead :: "nat \<Rightarrow> sched \<Rightarrow> bool" where
  "dead r s = (r < s_next s \<and> an_stopped (s_heap s r) \<and> pending_for r s = [])"

definition timers_inv :: "sched \<Rightarrow> bool" where
  "timers_inv s =
     ((\<forall>t \<in> set (s_timers s).
          fst t < s_next_timer s \<and> snd t < s_next s \<and>
          an_timeout (s_heap s (snd t)) = Some (fst t) \<and>
          \<not> an_stopped (s_heap s (snd t)) \<and> snd t \<notin> set (s_inflight s)) \<and>
      distinct (s_inflight s) \<and>
      (\<forall>r \<in> set (s_inflight s). r < s_next s) \<and>
      (\<forall>r. (\<forall>h. an_timeout (s_heap s r) = Some h \<longrightarrow> h < s_next_timer s)))"

definition announces_inv :: "sched \<Rightarrow> bool" where
  "announces_inv s =
     ((\<forall>idk r. map_of (announces (s_link s)) idk = Some r \<longrightarrow>
          r < s_next s \<and> \<not> an_stopped (s_heap s r) \<and>
          ident (an_key (s_heap s r)) (an_port (s_heap s r)) = idk) \<and>
      (\<forall>r < s_next s. \<not> an_stopped (s_heap s r) \<longrightarrow>
          map_of (announces (s_link s)) (ident (an_key (s_heap s r)) (an_port (s_heap s r))) = Some r))"

text \<open>Three states of a scheduler that announces \<open>svc\<close> on port 1337: the first
  announce call in flight; that call completed and the timer of the next one pending;
  that timer fired and the second announce call in flight.\<close>

definition started :: sched where
  "started = run [StartAnnouncing ''svc'' 1337 None (Some (Fn 0))] (sched_init default_conf)"

definition waiting :: sched where
  "waiting = run [StartAnnouncing ''svc'' 1337 None (Some (Fn 0)), AnnounceDone 0 JNull (1 / 2)]
               (sched_init default_conf)"

definition announcing_again :: sched where
  "announcing_again =
     run [StartAnnouncing ''svc'' 1337 None (Some (Fn 0)), AnnounceDone 0 JNull (1 / 2), TimerFires 0]
       (sched_init default_conf)"

section \<open>Reply dispatch\<close>

lemma find_filter_same: "find (\<lambda>x. f x = k) (filter (\<lambda>x. f x \<noteq> k) xs) = None"
  by (induction xs) auto

lemma find_filter_other:
  "k \<noteq> k' \<Longrightarrow> find (\<lambda>x. f x = k) (filter (\<lambda>x. f x \<noteq> k') xs) = find (\<lambda>x. f x = k) xs"
  by (induction xs) auto

lemma handleReply_absent:
  "getRequest rid lk = None \<Longrightarrow> handleReply now rid err data lk = (lk, None)"
  by (simp add: handleReply_def)

lemma handleReply_present:
  assumes "getRequest rid lk = Some r"
  shows "snd (handleReply now rid err data lk) = Some (req_cb r, err, data)"
    and "getRequest rid (fst (handleReply now rid err data lk)) = None"
    and "rid' \<noteq> rid \<Longrightarrow> getRequest rid' (fst (handleReply now rid err data lk)) = getRequest rid' lk"
  using assms getRequest_rid[OF assms]
  by (auto simp: handleReply_def Let_def delRequest_def getRequest_def find_filter_same
      find_filter_other split: option.splits)

lemma dispatch_fired:
  "fired rid (snd (dispatch beh acts lk tr))
     \<le> fired rid tr + (if getRequest rid lk = None then 0 else 1)"
proof (induction beh acts lk tr rule: dispatch.induct)
  case (1 beh lk tr)
  show ?case by simp
next
  case (2 beh now rid' err data rest lk tr)
  show ?case
  proof (cases "getRequest rid' lk")
    case None
    then have h: "handleReply now rid' err data lk = (lk, None)"
      by (rule handleReply_absent)
    from "2.IH"(1)[OF h[symmetric] refl] h show ?thesis by simp
  next
    case (Some r)
    obtain lk' where h: "handleReply now rid' err data lk = (lk', Some (req_cb r, err, data))"
      using handleReply_present(1)[OF Some, of now err data]
      by (cases "handleReply now rid' err data lk") auto
    have gone: "getRequest rid' lk' = None"
      using handleReply_present(2)[OF Some, of now err data] h by simp
    have other: "rid \<noteq> rid' \<Longrightarrow> getRequest rid lk' = getRequest rid lk"
      using handleReply_present(3)[OF Some, of rid now err data] h by simp
    have ih: "fired rid (snd (dispatch beh (cb_acts beh (req_cb r) err data lk' @ rest) lk'
                 (tr @ [(rid', req_cb r, err, data)])))
             \<le> fired rid (tr @ [(rid', req_cb r, err, data)])
                 + (if getRequest rid lk' = None then 0 else 1)"
      using "2.IH"(2)[OF h[symmetric] refl refl refl] .
    show ?thesis
    proof (cases "rid = rid'")
      case True
      with ih gone Some h show ?thesis by (simp add: fired_def)
    next
      case False
      with ih other h show ?thesis by (simp add: fired_def)
    qed
  qed
qed

text \<open>
  C1. \<open>handleReply\<close> looks the correlation id up first. When the registry has no
  entry for it, the call returns the link as it was (registry and cache untouched) and
  invokes no callback. When it has one, the call ends with the invocation of that
  entry's callback with the reply's \<open>(err, data)\<close>, on a link from which the entry
  is already gone. So in every run of replies, also of replies that callbacks make for
  the same id while they run, the callback of a correlation id fires at most once.
\<close>

theorem handleReply_dispatch_once:
  "(getRequest rid lk = None \<longrightarrow> handleReply now rid err data lk = (lk, None)) \<and>
   (\<forall>r. getRequest rid lk = Some r \<longrightarrow>
      (\<exists>lk'. handleReply now rid err data lk = (lk', Some (req_cb r, err, data)) \<and>
             getRequest rid lk' = None)) \<and>
   (\<forall>beh acts. fired rid (snd (dispatch beh acts lk [])) \<le> 1)"
proof (intro conjI allI impI)
  assume "getRequest rid lk = None"
  then show "handleReply now rid err data lk = (lk, None)" by (rule handleReply_absent)
next
  fix r assume r: "getRequest rid lk = Some r"
  show "\<exists>lk'. handleReply now rid err data lk = (lk', Some (req_cb r, err, data)) \<and>
             getRequest rid lk' = None"
    using handleReply_present(1,2)[OF r, of now err data]
    by (cases "handleReply now rid err data lk") auto
next
  fix beh acts
  show "fired rid (snd (dispatch beh acts lk [])) \<le> 1"
    using dispatch_fired[of rid beh acts lk "[]"] by (simp add: fired_def split: if_splits)
qed

theorem handleReply_dispatch_once_witness:
  "getRequest ''zz'' example_link = None \<and>
   handleReply 1 ''zz'' JNull (JArr [JStr ''h'']) example_link = (example_link, None) \<and>
   getRequest ''r1'' example_link = Some example_req \<and>
   (\<exists>lk'. handleReply 1 ''r1'' JNull (JArr [JStr ''h'']) example_link
            = (lk', Some (Fn 0, JNull, JArr [JStr ''h''])) \<and> getRequest ''r1'' lk' = None) \<and>
   fired ''r1'' (snd (dispatch reentrant_example
      [Reply 1 ''r1'' JNull (JArr [JStr ''h'']), Reply 3 ''r1'' JNull JNull] example_link [])) \<le> 1"
proof -
  have a: "getRequest ''zz'' example_link = None"
    by (simp add: example_link_def example_req_def addRequest_def getRequest_def init_def newRequest_def)
  have b: "getRequest ''r1'' example_link = Some example_req"
    by (simp add: example_link_def example_req_def addRequest_def getRequest_def init_def newRequest_def)
  have c: "req_cb example_req = Fn 0"
    by (simp add: example_req_def newRequest_def)
  show ?thesis
    using a b c handleReply_dispatch_once[of "''zz''" example_link 1 JNull "JArr [JStr ''h'']"]
      handleReply_dispatch_once[of "''r1''" example_link 1 JNull "JArr [JStr ''h'']"]
    by (simp del: dispatch.simps)
qed

text \<open>On the example, the callback that replies to its own id twice is invoked once.\<close>

lemma reentrant_reply_fires_once:
  "fired ''r1'' (snd (dispatch reentrant_example
      [Reply 1 ''r1'' JNull (JArr [JStr ''h'']), Reply 3 ''r1'' JNull JNull] example_link [])) = 1"
  by (simp add: example_link_def example_req_def addRequest_def getRequest_def init_def
      newRequest_def fired_def handleReply_def delRequest_def Let_def)

section \<open>Cache writes of a reply\<close>

lemma regions_ok_init: "regions_ok (init cf)"
  by (simp add: regions_ok_def init_def)

lemma handleReply_cache:
  "getRequest rid lk = Some r \<Longrightarrow>
   cache (fst (handleReply now rid err data lk)) =
     (if \<not> truthy err \<and> truthy data
      then (case cache lk (req_type r) of
              Some c \<Rightarrow> (cache lk)(req_type r := Some (lru_set now (req_qhash r) data c))
            | None \<Rightarrow> cache lk)
      else cache lk)"
  by (simp add: handleReply_def Let_def delRequest_def split: option.splits)

lemma handleReply_cache_lookup:
  assumes "regions_ok lk" and "getRequest rid lk = Some r"
  shows "cache (fst (handleReply now rid err data lk)) =
           (if \<not> truthy err \<and> truthy data \<and> req_type r = Lookup
            then (cache lk)(Lookup := map_option (lru_set now (req_qhash r) data) (cache lk Lookup))
            else cache lk)"
proof (cases "req_type r = Lookup")
  case True
  from assms(1) obtain c where "cache lk Lookup = Some c"
    by (auto simp: regions_ok_def)
  with True show ?thesis
    unfolding handleReply_cache[OF assms(2)] by simp
next
  case False
  with assms(1) have "cache lk (req_type r) = None"
    by (simp add: regions_ok_def)
  with False show ?thesis
    unfolding handleReply_cache[OF assms(2)] by simp
qed

lemma regions_ok_handleReply:
  assumes "regions_ok lk"
  shows "regions_ok (fst (handleReply now rid err data lk))"
proof (cases "getRequest rid lk")
  case None
  with assms show ?thesis by (simp add: handleReply_def)
next
  case (Some r)
  show ?thesis
    using assms unfolding regions_ok_def handleReply_cache_lookup[OF assms Some]
    by simp
qed

text \<open>
  C2 (as the code has it). On a link with the cache regions of \<open>init\<close>, a reply that
  finds its request writes the cache region of the request's type at the request's
  fingerprint exactly when the error is falsy, the data is truthy and the type is
  \<open>lookup\<close>; in every other case the cache is left as it was. Truthy is the
  condition \<open>!err && data\<close> of the code: an error reply and a reply without data write
  nothing, a reply whose data is an empty array is truthy and is written.
\<close>

theorem handleReply_cache_write:
  assumes "regions_ok lk" and "getRequest rid lk = Some r"
  shows "cache (fst (handleReply now rid err data lk)) =
           (if \<not> truthy err \<and> truthy data \<and> req_type r = Lookup
            then (cache lk)(Lookup := map_option (lru_set now (req_qhash r) data) (cache lk Lookup))
            else cache lk)"
  using assms by (rule handleReply_cache_lookup)

theorem handleReply_cache_write_witness:
  "regions_ok example_link \<and> getRequest ''r1'' example_link = Some example_req \<and>
   cache (fst (handleReply 7 ''r1'' JNull (JArr [JStr ''h'']) example_link)) =
     (cache example_link)(Lookup :=
        map_option (lru_set 7 (req_qhash example_req) (JArr [JStr ''h''])) (cache example_link Lookup)) \<and>
   cache (fst (handleReply 7 ''r1'' (JError (JStr ''ERR_TIMEOUT'') JUndefined) JUndefined example_link)) =
     cache example_link"
proof -
  have a: "regions_ok example_link"
    by (simp add: example_link_def addRequest_def regions_ok_def init_def)
  have b: "getRequest ''r1'' example_link = Some example_req"
    by (simp add: example_link_def example_req_def addRequest_def getRequest_def init_def newRequest_def)
  have c: "req_type example_req = Lookup"
    by (simp add: example_req_def newRequest_def)
  have d: "truthy (JArr [JStr ''h''])" "\<not> truthy JNull" "truthy (JError (JStr ''ERR_TIMEOUT'') JUndefined)"
    by simp_all
  from handleReply_cache_write[OF a b, of 7 JNull "JArr [JStr ''h'']"] c d
  have e: "cache (fst (handleReply 7 ''r1'' JNull (JArr [JStr ''h'']) example_link)) =
     (cache example_link)(Lookup :=
        map_option (lru_set 7 (req_qhash example_req) (JArr [JStr ''h''])) (cache example_link Lookup))"
    by simp
  from handleReply_cache_write[OF a b, of 7 "JError (JStr ''ERR_TIMEOUT'') JUndefined" JUndefined] d
  have f: "cache (fst (handleReply 7 ''r1'' (JError (JStr ''ERR_TIMEOUT'') JUndefined) JUndefined example_link)) =
     cache example_link"
    by simp
  from a b e f show ?thesis by blast
qed


text \<open>
  C2 (as the claim has it) fails: the reply \<open>(null, [])\<close> to the pending lookup of the
  example carries an empty sequence, and the region, empty before, holds it afterwards.
\<close>

theorem empty_reply_cached_counterexample:
  "isArray (JArr []) \<and> arr_length (JArr []) = 0 \<and>
   map_option lru_entries (cache example_link Lookup) = Some [] \<and>
   map_option lru_entries (cache (fst (handleReply 7 ''r1'' JNull (JArr []) example_link)) Lookup)
     = Some [(req_qhash example_req, JArr [], 7)]"
  by (simp add: example_link_def example_req_def addRequest_def getRequest_def init_def
      newRequest_def handleReply_def Let_def delRequest_def new_LRU_def lru_set_def default_conf_def)


section \<open>The retry executor\<close>

declare async_retry.simps [simp del]

lemma state_after_Suc: "state_after task s (Suc i) = state_after task (fst (task s)) i"
  unfolding state_after_def by (simp only: funpow_Suc_right o_apply)

lemma result_of_Suc: "result_of task s (Suc i) = result_of task (fst (task s)) i"
  by (simp add: result_of_def state_after_Suc)

lemma async_retry_succeeded:
  "succeeded (snd (task s)) \<Longrightarrow> async_retry n task s = (fst (task s), snd (task s), 1)"
  by (subst async_retry.simps) (auto split: prod.splits completion.splits)

lemma async_retry_failed_last:
  "failed (snd (task s)) \<Longrightarrow> n \<le> 1 \<Longrightarrow> async_retry n task s = (fst (task s), snd (task s), 1)"
  by (subst async_retry.simps) (auto split: prod.splits completion.splits)

lemma async_retry_failed_more:
  "failed (snd (task s)) \<Longrightarrow> 1 < n \<Longrightarrow>
   async_retry n task s =
     (case async_retry (n - 1) task (fst (task s)) of (s'', c, m) \<Rightarrow> (s'', c, Suc m))"
  by (subst async_retry.simps) (auto split: prod.splits completion.splits)

lemma async_retry_first_success:
  "i < n \<Longrightarrow> (\<forall>j<i. failed (result_of task s j)) \<Longrightarrow> succeeded (result_of task s i) \<Longrightarrow>
   async_retry n task s = (state_after task s (Suc i), result_of task s i, Suc i)"
proof (induction i arbitrary: n s)
  case 0
  then show ?case
    using async_retry_succeeded[of task s n] by (simp add: result_of_def state_after_def)
next
  case (Suc i)
  from Suc.prems(2) have f0: "failed (snd (task s))"
    by (auto simp: result_of_def state_after_def dest: spec[of _ 0])
  from Suc.prems(1) have n: "1 < n" "i < n - 1" by auto
  have "\<forall>j<i. failed (result_of task (fst (task s)) j)"
    using Suc.prems(2) by (auto simp: result_of_Suc[symmetric])
  moreover have "succeeded (result_of task (fst (task s)) i)"
    using Suc.prems(3) by (simp add: result_of_Suc)
  ultimately have "async_retry (n - 1) task (fst (task s))
      = (state_after task (fst (task s)) (Suc i), result_of task (fst (task s)) i, Suc i)"
    using Suc.IH[OF n(2)] by blast
  then show ?case
    using async_retry_failed_more[of task s n, OF f0 n(1)]
    by (simp add: result_of_Suc state_after_Suc[of task s "Suc i"])
qed

lemma async_retry_all_failed:
  "1 \<le> n \<Longrightarrow> (\<forall>j<n. failed (result_of task s j)) \<Longrightarrow>
   async_retry n task s = (state_after task s n, result_of task s (n - 1), n)"
proof (induction n arbitrary: s)
  case 0
  then show ?case by simp
next
  case (Suc n)
  from Suc.prems(2) have f0: "failed (snd (task s))"
    by (auto simp: result_of_def state_after_def dest: spec[of _ 0])
  show ?case
  proof (cases "n = 0")
    case True
    then show ?thesis
      using async_retry_failed_last[of task s "Suc n", OF f0]
      by (simp add: result_of_def state_after_def)
  next
    case False
    then have n: "1 \<le> n" "1 < Suc n" by auto
    have "\<forall>j<n. failed (result_of task (fst (task s)) j)"
      using Suc.prems(2) by (auto simp: result_of_Suc[symmetric])
    then have "async_retry n task (fst (task s))
      = (state_after task (fst (task s)) n, result_of task (fst (task s)) (n - 1), n)"
      using Suc.IH[OF n(1)] by blast
    moreover have "result_of task (fst (task s)) (n - 1) = result_of task s n"
      using False result_of_Suc[of task s "n - 1"] by simp
    ultimately show ?thesis
      using async_retry_failed_more[of task s "Suc n", OF f0 n(2)]
      by (simp add: state_after_Suc[of task s n])
  qed
qed

lemma async_retry_count: "1 \<le> n \<Longrightarrow> snd (snd (async_retry n task s)) \<le> n"
proof (induction n arbitrary: s)
  case 0
  then show ?case by simp
next
  case (Suc n)
  show ?case
  proof (cases "failed (snd (task s)) \<and> 1 < Suc n")
    case True
    then have "1 \<le> n" by simp
    from Suc.IH[OF this, of "fst (task s)"] show ?thesis
      using async_retry_failed_more[of task s "Suc n"] True
      by (simp split: prod.splits)
  next
    case False
    have "snd (snd (async_retry (Suc n) task s)) = 1"
      using False
      by (subst async_retry.simps) (auto split: prod.splits completion.splits)
    then show ?thesis by simp
  qed
qed

lemma request_retry: "retry opts = Some n \<Longrightarrow> 1 \<le> n \<Longrightarrow>
   request js k t payload opts w = async_retry n (attempt js k t payload opts) w"
  by (simp add: request_def retry_count_def)

text \<open>
  C5. For every bound \<open>n\<close> of at least one and every attempt function, the retry
  executor invokes the attempt at most \<open>n\<close> times, each attempt on the state the one
  before left (so one after the other). When the attempts before attempt \<open>i\<close> fail
  and attempt \<open>i\<close> succeeds, with \<open>i\<close> below \<open>n\<close>, the executor stops there and
  delivers the completion of that attempt after \<open>i + 1\<close> invocations. When all \<open>n\<close>
  attempts fail, it delivers the error of the last one after exactly \<open>n\<close>
  invocations. \<open>request\<close> runs its attempts through the executor with the bound its
  \<open>retry\<close> option gives.
\<close>

theorem retry_attempts:
  assumes "1 \<le> n"
  shows "snd (snd (async_retry n task s)) \<le> n \<and>
    (\<forall>i<n. (\<forall>j<i. failed (result_of task s j)) \<and> succeeded (result_of task s i) \<longrightarrow>
        async_retry n task s = (state_after task s (Suc i), result_of task s i, Suc i)) \<and>
    ((\<forall>j<n. failed (result_of task s j)) \<longrightarrow>
        async_retry n task s = (state_after task s n, result_of task s (n - 1), n)) \<and>
    (\<forall>js k t payload opts w. retry opts = Some n \<longrightarrow>
        request js k t payload opts w = async_retry n (attempt js k t payload opts) w)"
  using assms async_retry_count[of n task s] async_retry_first_success[of _ n task s]
    async_retry_all_failed[of n task s] request_retry[of _ n]
  by blast

theorem retry_attempts_witness:
  "async_retry 3 flaky 0 = (3, Calls (JNull, JStr ''ok''), 3) \<and>
   async_retry 2 flaky 0 = (2, Calls (JError (JStr ''ERR_TIMEOUT'') (JNum 1), JUndefined), 2)"
proof -
  have s: "state_after flaky 0 0 = 0" "state_after flaky 0 1 = 1" "state_after flaky 0 2 = 2"
    "state_after flaky 0 3 = 3"
    by (simp_all add: state_after_def flaky_def numeral_2_eq_2 numeral_3_eq_3)
  have r: "result_of flaky 0 0 = Calls (JError (JStr ''ERR_TIMEOUT'') (JNum 0), JUndefined)"
    "result_of flaky 0 1 = Calls (JError (JStr ''ERR_TIMEOUT'') (JNum 1), JUndefined)"
    "result_of flaky 0 2 = Calls (JNull, JStr ''ok'')"
    using s by (simp_all add: result_of_def flaky_def)
  have f: "\<forall>j<2. failed (result_of flaky 0 j)"
    using r by (auto simp: less_Suc_eq numeral_2_eq_2)
  have three: "1 \<le> (3::nat)" and two: "1 \<le> (2::nat)" by simp_all
  have a0: "\<forall>i<3. (\<forall>j<i. failed (result_of flaky 0 j)) \<and> succeeded (result_of flaky 0 i) \<longrightarrow>
        async_retry 3 flaky 0 = (state_after flaky 0 (Suc i), result_of flaky 0 i, Suc i)"
    using retry_attempts[OF three, of flaky 0] by (rule conjunct1[OF conjunct2])
  have a: "async_retry 3 flaky 0 = (state_after flaky 0 (Suc 2), result_of flaky 0 2, Suc 2)"
    using a0[rule_format, of 2] f r by simp
  have b0: "(\<forall>j<2. failed (result_of flaky 0 j)) \<longrightarrow>
        async_retry 2 flaky 0 = (state_after flaky 0 2, result_of flaky 0 (2 - 1), 2)"
    using retry_attempts[OF two, of flaky 0] by (rule conjunct1[OF conjunct2[OF conjunct2]])
  have b: "async_retry 2 flaky 0 = (state_after flaky 0 2, result_of flaky 0 (2 - 1), 2)"
    using b0 f by blast
  from a b s r show ?thesis by (simp add: numeral_3_eq_3)
qed


section \<open>The transport's timeout\<close>

text \<open>
  When the transport reports a timeout together with a response, the callback
  receives an \<open>ERR_TIMEOUT\<close> error that carries the status of the response.
\<close>

lemma post_cb_timeout_with_response:
  "truthy err \<Longrightarrow> code_of err = JStr ''ETIMEDOUT'' \<Longrightarrow>
   post_cb err (Some r) resData
     = Calls (JError (JStr ''ERR_TIMEOUT'') (JNum (int (statusCode r))), None, JUndefined)"
  by (simp add: post_cb_def)

text \<open>
  C9. A timeout is to reach the callback as an \<open>ERR_TIMEOUT\<close> error, with the status
  of the response if there is one, and never to throw. On a timeout without a response,
  which is how the transport reports one, reading \<open>res.statusCode\<close> throws a
  \<open>TypeError\<close> and the callback is never called.
\<close>

theorem post_cb_timeout_without_response:
  "post_cb (JError (JStr ''connect ETIMEDOUT'') (JStr ''ETIMEDOUT'')) None JUndefined
     = Throws TypeError"
  by (simp add: post_cb_def)

section \<open>Lookup\<close>

lemmas engine_defs =
  request_def retry_count_def with_retry3_def no_opts_def async_retry.simps
  attempt_def example_world_def u_request_def init_def default_conf_def
  new_LRU_def lru_get_def getRequestHash_def newRequest_def addRequest_def Let_def
  post_cb_def digit_char_def line_terminator_def handleReply_def getRequest_def
  delRequest_def lru_set_def deref_def

text \<open>
  C7. When the request of a lookup succeeds (its callback is called with a falsy
  error), the caller's callback receives the reply data unchanged as the success value
  if the data is a non-empty array, and an \<open>ERR_GRAPE_LOOKUP_EMPTY\<close> error, without
  any data, in every other case.
\<close>

theorem lookup_result:
  assumes "request js k Lookup key (with_retry3 opts) w = (w', Calls (err, res), n)"
    and "\<not> truthy err"
  shows "lookup js k key opts w =
           (w', Calls (if isArray res \<and> 0 < arr_length res then (JNull, res)
                       else (JError (JStr ''ERR_GRAPE_LOOKUP_EMPTY'') JUndefined, JUndefined)))"
  using assms by (simp add: lookup_def lookup_cb_def)

lemma request_hosts:
  "snd (request stringify_example (Fn 1) Lookup (JStr ''k'') (with_retry3 no_opts)
          (example_world [tick_hosts])) = (Calls (JNull, JArr [JStr ''10.0.0.1:1337'']), 1)"
  by (simp add: engine_defs tick_hosts_def)

lemma request_empty:
  "snd (request stringify_example (Fn 1) Lookup (JStr ''k'') (with_retry3 no_opts)
          (example_world [tick_empty])) = (Calls (JNull, JArr []), 1)"
  by (simp add: engine_defs tick_empty_def)

theorem lookup_result_witness:
  "snd (lookup stringify_example (Fn 1) (JStr ''k'') no_opts (example_world [tick_hosts]))
     = Calls (JNull, JArr [JStr ''10.0.0.1:1337'']) \<and>
   snd (lookup stringify_example (Fn 1) (JStr ''k'') no_opts (example_world [tick_empty]))
     = Calls (JError (JStr ''ERR_GRAPE_LOOKUP_EMPTY'') JUndefined, JUndefined)"
proof -
  let ?rq = "\<lambda>tk. request stringify_example (Fn 1) Lookup (JStr ''k'') (with_retry3 no_opts)
          (example_world [tk])"
  have a: "?rq tick_hosts = (fst (?rq tick_hosts), Calls (JNull, JArr [JStr ''10.0.0.1:1337'']), 1)"
    using request_hosts by (metis prod.collapse)
  have b: "?rq tick_empty = (fst (?rq tick_empty), Calls (JNull, JArr []), 1)"
    using request_empty by (metis prod.collapse)
  have n: "\<not> truthy JNull" by simp
  from lookup_result[OF a n] lookup_result[OF b n] show ?thesis by simp
qed


text \<open>A lookup whose first exchange times out without a response: the exception
  escapes the transport's callback, so the request stays registered, no further
  attempt is made and the caller's callback is never called.\<close>

lemma lookup_timeout_throws:
  "snd (lookup stringify_example (Fn 1) (JStr ''k'') no_opts (example_world [tick_timeout, tick_hosts]))
     = Throws TypeError \<and>
   map req_rid (reqs (w_link (fst (lookup stringify_example (Fn 1) (JStr ''k'') no_opts
     (example_world [tick_timeout, tick_hosts]))))) = [''r4''] \<and>
   length (w_posts (fst (lookup stringify_example (Fn 1) (JStr ''k'') no_opts
     (example_world [tick_timeout, tick_hosts])))) = 1"
  by (simp add: lookup_def engine_defs tick_timeout_def)

section \<open>Mutable puts\<close>

text \<open>
  The two checks, where they apply. In a \<open>putMutable\<close> call with its three
  arguments, when \<open>data.seq\<close> is absent the callback receives an \<open>ERR_MISSING_SEQ\<close>
  error; when the sequence number is there and \<open>options.keys\<close> is an object from which
  \<open>publicKey\<close> or \<open>secretKey\<close> is absent, the callback receives an
  \<open>ERR_MISSING_KEY\<close> error. In both cases the world is returned as it was: no exchange
  is begun, nothing is registered and the caller's object is not touched, whatever the
  encoder and the signer are, so both checks come before any encoding, signing or
  transport activity.
\<close>

lemma putMutable_validation:
  "(\<not> truthy (obj_get (w_heap w a) ''seq'') \<longrightarrow>
      putMutable bencode ed js k (Some a) (Some os) (Some f) w
        = (w, Calls (JError (JStr ''ERR_MISSING_SEQ'') JUndefined, JUndefined))) \<and>
   (truthy (obj_get (w_heap w a) ''seq'') \<and> keys os = Some kp \<and>
    (publicKey kp = None \<or> secretKey kp = None) \<longrightarrow>
      putMutable bencode ed js k (Some a) (Some os) (Some f) w
        = (w, Calls (JError (JStr ''ERR_MISSING_KEY'') JUndefined, JUndefined)))"
  by (auto simp: putMutable_def split: option.splits)

lemma putMutable_validation_example:
  "putMutable bencode_example None stringify_example (Fn 1) (Some 1) (Some example_keys) (Some (Fn 2))
       example_heap_world
     = (example_heap_world, Calls (JError (JStr ''ERR_MISSING_SEQ'') JUndefined, JUndefined)) \<and>
   putMutable bencode_example None stringify_example (Fn 1) (Some 0)
       (Some \<lparr> keys = Some \<lparr> publicKey = Some [1, 171], secretKey = None \<rparr> \<rparr>) (Some (Fn 2))
       example_heap_world
     = (example_heap_world, Calls (JError (JStr ''ERR_MISSING_KEY'') JUndefined, JUndefined))"
proof -
  have a: "\<not> truthy (obj_get (w_heap example_heap_world 1) ''seq'')"
    by (simp add: example_heap_world_def obj_get_def)
  have b: "truthy (obj_get (w_heap example_heap_world 0) ''seq'')"
    by (simp add: example_heap_world_def obj_get_def)
  have c: "keys \<lparr> keys = Some \<lparr> publicKey = Some [1, 171], secretKey = None \<rparr> \<rparr>
             = Some \<lparr> publicKey = Some [1, 171], secretKey = None \<rparr>"
    "secretKey \<lparr> publicKey = Some [1, 171], secretKey = None \<rparr> = None"
    by simp_all
  from a b c
    putMutable_validation[where w = example_heap_world and a = 1 and bencode = bencode_example
      and ed = None and js = stringify_example and k = "Fn 1" and os = example_keys and f = "Fn 2"]
    putMutable_validation[where w = example_heap_world and a = 0 and bencode = bencode_example
      and ed = None and js = stringify_example and k = "Fn 1" and f = "Fn 2"
      and os = "\<lparr> keys = Some \<lparr> publicKey = Some [1, 171], secretKey = None \<rparr> \<rparr>"
      and kp = "\<lparr> publicKey = Some [1, 171], secretKey = None \<rparr>"]
  show ?thesis by blast
qed

text \<open>
  A call whose options carry no \<open>keys\<close> at all never reaches the key check: the
  destructuring of \<open>opts.keys\<close> throws a \<open>TypeError\<close>, whatever the encoder and the
  signer are, and the callback is not called.
\<close>

lemma putMutable_no_keys_object:
  assumes "truthy (obj_get (w_heap w a) ''seq'')" and "keys os = None"
  shows "putMutable bencode ed js k (Some a) (Some os) (Some f) w = (w, Throws TypeError)"
  using assms by (simp add: putMutable_def)

text \<open>
  C8. A \<open>putMutable\<close> call without \<open>data.seq\<close> is to end with \<open>ERR_MISSING_SEQ\<close> and
  one without signing keys with \<open>ERR_MISSING_KEY\<close>, both handed to the callback before
  any encoding, signing or transport activity. The call with the object
  \<open>{seq: 1, v: 'value'}\<close> and the options \<open>{}\<close> has neither key in \<open>options.keys\<close>:
  there is no \<open>options.keys\<close>. It begins no exchange and touches nothing, but the
  callback never receives \<open>ERR_MISSING_KEY\<close>: the call throws a \<open>TypeError\<close>.
\<close>

theorem putMutable_without_keys_throws:
  "putMutable bencode_example None stringify_example (Fn 1) (Some 0) (Some \<lparr> keys = None \<rparr>)
       (Some (Fn 2)) example_heap_world
     = (example_heap_world, Throws TypeError)"
  by (simp add: putMutable_def example_heap_world_def obj_get_def)

text \<open>
  What the code does after the checks. With a signer bound to \<open>ed\<close> the caller's
  object gets the fields \<open>k\<close> and \<open>sig\<close> in place and \<open>put\<close> receives the
  reference to it, not a copy. With no \<open>ed\<close> bound the object gets the field \<open>k\<close>,
  then reading \<open>ed\<close> throws.
\<close>

lemma putMutable_unbound_ed:
  assumes "truthy (obj_get (w_heap w a) ''seq'')"
    and "keys os = Some kp" and "publicKey kp = Some pk" and "secretKey kp = Some sk"
  shows "putMutable bencode None js k (Some a) (Some os) (Some f) w
           = (w\<lparr> w_heap := (w_heap w)(a := map_set ''k'' (JStr (to_hex pk)) (w_heap w a)) \<rparr>,
              Throws ReferenceError)"
  using assms by (simp add: putMutable_def Let_def)

lemma putMutable_signed:
  assumes "truthy (obj_get (w_heap w a) ''seq'')"
    and "keys os = Some kp" and "publicKey kp = Some pk" and "secretKey kp = Some sk"
  shows "\<exists>sg. putMutable bencode (Some sign) js k (Some a) (Some os) (Some f) w
           = put js k (JRef a) (Some f)
               (w\<lparr> w_heap := (w_heap w)
                     (a := map_set ''sig'' (JStr (to_hex sg))
                             (map_set ''k'' (JStr (to_hex pk)) (w_heap w a))) \<rparr>)"
  using assms by (simp add: putMutable_def Let_def) blast

text \<open>
  C10. A call that passes the checks is to set \<open>k\<close> and \<open>sig\<close> on the caller's object
  and hand that object to \<open>put\<close>. The file binds no \<open>ed\<close>, so on the object
  \<open>{seq: 1, v: 'value'}\<close> with both keys the call sets \<open>k\<close> and then throws a
  \<open>ReferenceError\<close>: no \<open>sig\<close> is set, no exchange is begun, and \<open>put\<close> is not
  reached.
\<close>

theorem putMutable_throws_at_sign:
  "putMutable bencode_example None stringify_example (Fn 1) (Some 0) (Some example_keys)
       (Some (Fn 2)) example_heap_world
     = (example_heap_world\<lparr> w_heap := (w_heap example_heap_world)
           (0 := [(''seq'', JNum 1), (''v'', JStr ''value''), (''k'', JStr ''01ab'')]) \<rparr>,
        Throws ReferenceError)"
  by (simp add: putMutable_def Let_def example_heap_world_def example_keys_def obj_get_def
      to_hex_def hex_digit_def)


section \<open>Lookups served from the cache\<close>

lemma lru_get_live:
  assumes "lru_live now c k"
  shows "\<exists>v c'. lru_get now k c = (v, c') \<and> lru_peek c k = Some v"
  using assms by (auto simp: lru_live_def lru_get_def lru_peek_def split: option.splits)

lemma lru_get_not_live:
  "\<not> lru_live now c k \<Longrightarrow> lru_get now k c = (JUndefined, c)"
  by (auto simp: lru_live_def lru_get_def split: option.splits)

lemma lru_peek_truthy:
  assumes "cache_ok lk" and "cache lk t = Some c" and "lru_peek c k = Some v"
  shows "truthy v"
proof -
  from assms(3) obtain ts where "map_of (lru_entries c) k = Some (v, ts)"
    by (auto simp: lru_peek_def)
  then have "(k, v, ts) \<in> set (lru_entries c)" by (rule map_of_SomeD)
  with assms(1,2) show ?thesis by (fastforce simp: cache_ok_def)
qed

lemma u_request_hit:
  assumes "cache lk t = Some c" and "lru_live now c (getRequestHash js t payload)"
    and "cache_ok lk"
  shows "\<exists>v lk'. u_request js rid now t payload opts cb lk = (lk', Hit v) \<and>
           lru_peek c (getRequestHash js t payload) = Some v \<and> reqs lk' = reqs lk"
proof -
  from lru_get_live[OF assms(2)] obtain v c' where
    g: "lru_get now (getRequestHash js t payload) c = (v, c')"
    and p: "lru_peek c (getRequestHash js t payload) = Some v" by blast
  from lru_peek_truthy[OF assms(3,1) p] have "truthy v" .
  with g p assms(1) show ?thesis
    by (simp add: u_request_def Let_def)
qed

lemma lru_set_get:
  "0 < lru_max c \<Longrightarrow> now' - now \<le> lru_maxAge c \<Longrightarrow>
   lru_get now' k (lru_set now k v c) =
     (v, (lru_set now k v c)\<lparr> lru_entries :=
            (k, v, now) # filter (\<lambda>e. fst e \<noteq> k) (lru_entries (lru_set now k v c)) \<rparr>)"
  by (cases "lru_max c") (simp_all add: lru_set_def lru_get_def)

lemma reqs_set_find: "find (\<lambda>x. req_rid x = req_rid r) (reqs_set r xs) = Some r"
  by (induction xs) auto

lemma getRequest_addRequest: "getRequest (req_rid r) (addRequest r lk) = Some r"
  by (simp add: getRequest_def addRequest_def reqs_set_find)

lemma attempt_miss:
  assumes "w_ticks w = tk # tks"
    and "cache (w_link w) Lookup = Some c"
    and "\<not> lru_live (tk_now tk) c (getRequestHash (\<lambda>v. js (deref (w_heap w) v)) Lookup key)"
    and "post_cb (tk_err tk) (tk_res tk) (tk_body tk) = Calls (err, rep, msg)"
    and "\<not> truthy err" and "truthy msg"
  shows "\<exists>w' p. attempt js k Lookup key opts w = (w', Calls (err, msg)) \<and>
           w_posts w' = w_posts w @ [p] \<and> w_ticks w' = tks \<and> w_heap w' = w_heap w \<and>
           cache (w_link w') Lookup =
             Some (lru_set (tk_later tk) (getRequestHash (\<lambda>v. js (deref (w_heap w) v)) Lookup key) msg c)"
proof -
  let ?js = "\<lambda>v. js (deref (w_heap w) v)"
  let ?opts = "opts\<lparr> timeout := (case timeout opts of
                                        None \<Rightarrow> Some (requestTimeout (conf (w_link w)))
                                      | Some ms \<Rightarrow> Some ms) \<rparr>"
  let ?r = "newRequest ?js (tk_rid tk) (tk_now tk) Lookup key ?opts (Some k)"
  let ?lk0 = "(w_link w)\<lparr> cache := (cache (w_link w))(Lookup := Some c) \<rparr>"
  let ?lk1 = "addRequest ?r ?lk0"
  have same: "?lk0 = w_link w"
    using assms(2) by (simp add: fun_upd_idem)
  have u: "\<exists>p. u_request ?js (tk_rid tk) (tk_now tk) Lookup key opts k (w_link w) = (?lk1, Sent ?r p)"
    using assms(2) lru_get_not_live[OF assms(3)]
    by (simp add: u_request_def Let_def)
  then obtain p where
    u': "u_request ?js (tk_rid tk) (tk_now tk) Lookup key opts k (w_link w) = (?lk1, Sent ?r p)"
    by blast
  have g: "getRequest (req_rid ?r) ?lk1 = Some ?r" by (rule getRequest_addRequest)
  have t: "req_type ?r = Lookup" "req_qhash ?r = getRequestHash ?js Lookup key"
    by (simp_all add: newRequest_def)
  have c1: "cache ?lk1 Lookup = Some c"
    using assms(2) by (simp add: addRequest_def)
  have h: "\<exists>lk'. handleReply (tk_later tk) (req_rid ?r) err msg ?lk1 = (lk', Some (req_cb ?r, err, msg))
            \<and> cache lk' Lookup = Some (lru_set (tk_later tk) (getRequestHash ?js Lookup key) msg c)"
    using g t c1 assms(5,6)
    by (simp add: handleReply_def Let_def delRequest_def)
  then obtain lk' where
    h': "handleReply (tk_later tk) (req_rid ?r) err msg ?lk1 = (lk', Some (req_cb ?r, err, msg))"
    and hc: "cache lk' Lookup = Some (lru_set (tk_later tk) (getRequestHash ?js Lookup key) msg c)"
    by blast
  show ?thesis
    using assms(1,4) u' h' hc
    by (simp add: attempt_def Let_def)
qed

lemma attempt_hit:
  assumes "w_ticks w = tk # tks"
    and "cache (w_link w) t = Some c"
    and "lru_get (tk_now tk) (getRequestHash (\<lambda>v. js (deref (w_heap w) v)) t key) c = (v, c')"
    and "truthy v"
  shows "attempt js k t key opts w =
           (w\<lparr> w_link := (w_link w)\<lparr> cache := (cache (w_link w))(t := Some c') \<rparr>, w_ticks := tks \<rparr>,
            Calls (JNull, v))"
  using assms by (simp add: attempt_def u_request_def Let_def)


lemma cache_ok_init: "cache_ok (init cf)"
  by (simp add: cache_ok_def init_def new_LRU_def)

lemma lru_set_truthy:
  assumes "\<forall>e \<in> set (lru_entries c). truthy (fst (snd e))" and "truthy v"
  shows "\<forall>e \<in> set (lru_entries (lru_set now k v c)). truthy (fst (snd e))"
proof
  fix e assume "e \<in> set (lru_entries (lru_set now k v c))"
  then have "e \<in> set ((k, v, now) #
      filter (\<lambda>e. fst e \<noteq> k \<and> now - snd (snd e) \<le> lru_maxAge c) (lru_entries c))"
    by (auto simp: lru_set_def dest: in_set_takeD)
  with assms show "truthy (fst (snd e))" by auto
qed

lemma lru_get_truthy:
  assumes "\<forall>e \<in> set (lru_entries c). truthy (fst (snd e))"
  shows "\<forall>e \<in> set (lru_entries (snd (lru_get now k c))). truthy (fst (snd e))"
  using assms
  by (auto simp: lru_get_def split: option.splits dest!: map_of_SomeD)

lemma cache_ok_handleReply:
  assumes "cache_ok lk"
  shows "cache_ok (fst (handleReply now rid err data lk))"
proof (cases "getRequest rid lk")
  case None
  with assms show ?thesis by (simp add: handleReply_def)
next
  case (Some r)
  show ?thesis
    unfolding cache_ok_def
  proof (intro allI impI)
    fix t c assume c: "cache (fst (handleReply now rid err data lk)) t = Some c"
    show "\<forall>e \<in> set (lru_entries c). truthy (fst (snd e))"
    proof (cases "\<not> truthy err \<and> truthy data \<and> t = req_type r \<and> cache lk (req_type r) \<noteq> None")
      case True
      then obtain c0 where c0: "cache lk (req_type r) = Some c0" by auto
      with True c Some have "c = lru_set now (req_qhash r) data c0"
        by (simp add: handleReply_def Let_def delRequest_def)
      moreover from assms c0 have "\<forall>e \<in> set (lru_entries c0). truthy (fst (snd e))"
        by (simp add: cache_ok_def)
      ultimately show ?thesis using True lru_set_truthy by blast
    next
      case False
      with c Some have "cache lk t = Some c"
        by (auto simp: handleReply_def Let_def delRequest_def split: option.splits if_splits)
      with assms show ?thesis by (simp add: cache_ok_def)
    qed
  qed
qed

lemma request_first_success:
  assumes "attempt js k t payload opts w = (w', Calls (e, d))" and "\<not> truthy e"
  shows "request js k t payload opts w = (w', Calls (e, d), 1)"
  using assms async_retry_succeeded[of "attempt js k t payload opts" w "retry_count opts"]
  by (simp add: request_def)

lemma lookup_first_success:
  assumes "attempt js k Lookup key (with_retry3 opts) w = (w', Calls (e, d))" and "\<not> truthy e"
  shows "lookup js k key opts w = (w', Calls (lookup_cb e d))"
  using request_first_success[OF assms] by (simp add: lookup_def)

lemma cache_ok_addRequest: "cache_ok (addRequest r lk) = cache_ok lk"
  by (simp add: cache_ok_def addRequest_def)

lemma cache_ok_u_request:
  assumes "cache_ok lk"
  shows "cache_ok (fst (u_request js rid now t payload opts cb lk))"
proof (cases "cache lk t")
  case None
  with assms show ?thesis
    by (simp add: u_request_def Let_def cache_ok_addRequest)
next
  case (Some c)
  obtain v c' where g: "lru_get now (getRequestHash js t payload) c = (v, c')"
    by (cases "lru_get now (getRequestHash js t payload) c")
  from assms Some have "\<forall>e \<in> set (lru_entries c). truthy (fst (snd e))"
    by (simp add: cache_ok_def)
  from lru_get_truthy[OF this, of now "getRequestHash js t payload"] g
  have c': "\<forall>e \<in> set (lru_entries c'). truthy (fst (snd e))" by simp
  have ok: "cache_ok (lk\<lparr> cache := (cache lk)(t := Some c') \<rparr>)"
    using assms c' by (simp add: cache_ok_def)
  show ?thesis
    using Some g ok by (simp add: u_request_def Let_def cache_ok_addRequest)
qed


text \<open>
  C6. An attempt of a request whose type has a cache region that holds a live entry
  for the fingerprint completes at once with the value of that entry: it begins no
  exchange and registers nothing. So of two lookups with the same payload, one after
  the other, the first finding no live entry and answered with a success that carries
  data, the second within the age bound of the answer and the region with room for an
  entry, the first begins one exchange and the second none: the second delivers the
  data of the first from the cache.
\<close>

theorem cached_lookup:
  "(w_ticks w = tk # tks \<and> cache (w_link w) t = Some c \<and> cache_ok (w_link w) \<and>
    lru_live (tk_now tk) c (getRequestHash (\<lambda>v. js (deref (w_heap w) v)) t payload) \<longrightarrow>
      (\<exists>v w'. attempt js k t payload opts w = (w', Calls (JNull, v)) \<and>
         lru_peek c (getRequestHash (\<lambda>v. js (deref (w_heap w) v)) t payload) = Some v \<and>
         w_posts w' = w_posts w \<and> reqs (w_link w') = reqs (w_link w))) \<and>
   (w_ticks w = tk # tkb # tks \<and> cache (w_link w) Lookup = Some c \<and> 0 < lru_max c \<and>
    \<not> lru_live (tk_now tk) c (getRequestHash (\<lambda>v. js (deref (w_heap w) v)) Lookup payload) \<and>
    post_cb (tk_err tk) (tk_res tk) (tk_body tk) = Calls (err, rep, msg) \<and>
    \<not> truthy err \<and> truthy msg \<and> tk_now tkb - tk_later tk \<le> lru_maxAge c \<longrightarrow>
      (\<exists>w1 w2 p. lookup js k payload opts w = (w1, Calls (lookup_cb err msg)) \<and>
         lookup js k payload opts w1 = (w2, Calls (lookup_cb JNull msg)) \<and>
         w_posts w2 = w_posts w @ [p] \<and> reqs (w_link w2) = reqs (w_link w1)))"
proof (intro conjI impI)
  let ?q = "getRequestHash (\<lambda>v. js (deref (w_heap w) v)) t payload"
  assume a: "w_ticks w = tk # tks \<and> cache (w_link w) t = Some c \<and> cache_ok (w_link w) \<and>
    lru_live (tk_now tk) c ?q"
  from lru_get_live[of "tk_now tk" c ?q] a obtain v c' where
    g: "lru_get (tk_now tk) ?q c = (v, c')" and p: "lru_peek c ?q = Some v" by blast
  from lru_peek_truthy[OF _ _ p] a have tv: "truthy v" by blast
  from a have "w_ticks w = tk # tks" "cache (w_link w) t = Some c" by simp_all
  from attempt_hit[OF this g tv, of k opts] p
  show "\<exists>v w'. attempt js k t payload opts w = (w', Calls (JNull, v)) \<and>
         lru_peek c ?q = Some v \<and> w_posts w' = w_posts w \<and> reqs (w_link w') = reqs (w_link w)"
    by simp
next
  let ?q = "getRequestHash (\<lambda>v. js (deref (w_heap w) v)) Lookup payload"
  assume b: "w_ticks w = tk # tkb # tks \<and> cache (w_link w) Lookup = Some c \<and> 0 < lru_max c \<and>
    \<not> lru_live (tk_now tk) c ?q \<and>
    post_cb (tk_err tk) (tk_res tk) (tk_body tk) = Calls (err, rep, msg) \<and>
    \<not> truthy err \<and> truthy msg \<and> tk_now tkb - tk_later tk \<le> lru_maxAge c"
  then have b1: "w_ticks w = tk # tkb # tks" and b2: "cache (w_link w) Lookup = Some c"
    and b3: "\<not> lru_live (tk_now tk) c ?q"
    and b4: "post_cb (tk_err tk) (tk_res tk) (tk_body tk) = Calls (err, rep, msg)"
    and b5: "\<not> truthy err" and b6: "truthy msg" and b7: "0 < lru_max c"
    and b8: "tk_now tkb - tk_later tk \<le> lru_maxAge c"
    by simp_all
  from attempt_miss[OF b1 b2 b3 b4 b5 b6, of k "with_retry3 opts"] obtain w1 p where
    m: "attempt js k Lookup payload (with_retry3 opts) w = (w1, Calls (err, msg))"
    and m1: "w_posts w1 = w_posts w @ [p]" and m2: "w_ticks w1 = tkb # tks"
    and m3: "w_heap w1 = w_heap w"
    and m4: "cache (w_link w1) Lookup = Some (lru_set (tk_later tk) ?q msg c)"
    by blast
  have l1: "lookup js k payload opts w = (w1, Calls (lookup_cb err msg))"
    using lookup_first_success[OF m b5] .
  let ?c1 = "lru_set (tk_later tk) ?q msg c"
  from lru_set_get[OF b7 b8, of ?q msg] obtain c2 where
    g: "lru_get (tk_now tkb) (getRequestHash (\<lambda>v. js (deref (w_heap w1) v)) Lookup payload) ?c1
          = (msg, c2)"
    using m3 by simp
  have n: "\<not> truthy JNull" by simp
  have l2: "lookup js k payload opts w1 =
      (w1\<lparr> w_link := (w_link w1)\<lparr> cache := (cache (w_link w1))(Lookup := Some c2) \<rparr>,
           w_ticks := tks \<rparr>, Calls (lookup_cb JNull msg))"
    using lookup_first_success[OF attempt_hit[OF m2 m4 g b6, of k "with_retry3 opts"] n] .
  from l1 l2 m1
  show "\<exists>w1 w2 p. lookup js k payload opts w = (w1, Calls (lookup_cb err msg)) \<and>
         lookup js k payload opts w1 = (w2, Calls (lookup_cb JNull msg)) \<and>
         w_posts w2 = w_posts w @ [p] \<and> reqs (w_link w2) = reqs (w_link w1)"
    by simp
qed


theorem cached_lookup_witness:
  "(\<exists>w'. attempt stringify_example (Fn 1) Lookup (JStr ''k'') no_opts cached_world
            = (w', Calls (JNull, JArr [JStr ''10.0.0.1:1337''])) \<and>
          w_posts w' = [] \<and> reqs (w_link w') = []) \<and>
   (\<exists>w1 w2 p. lookup stringify_example (Fn 1) (JStr ''k'') no_opts
                 (example_world [tick_hosts, tick_again])
               = (w1, Calls (JNull, JArr [JStr ''10.0.0.1:1337''])) \<and>
      lookup stringify_example (Fn 1) (JStr ''k'') no_opts w1
               = (w2, Calls (JNull, JArr [JStr ''10.0.0.1:1337''])) \<and>
      w_posts w2 = [p])"
proof -
  let ?key = "JStr ''k''"
  let ?hosts = "JArr [JStr ''10.0.0.1:1337'']"
  let ?q = "getRequestHash stringify_example Lookup ?key"
  let ?w = "example_world [tick_hosts, tick_again]"
  have d: "(\<lambda>v. stringify_example (deref (w_heap cached_world) v)) = stringify_example"
    "(\<lambda>v. stringify_example (deref (w_heap ?w) v)) = stringify_example"
    by (auto simp: fun_eq_iff deref_def cached_world_def example_world_def split: jsval.splits)
  have a: "w_ticks cached_world = tick_again # []"
    "cache (w_link cached_world) Lookup = Some cached_region"
    "cache_ok (w_link cached_world)"
    "lru_live (tk_now tick_again) cached_region ?q"
    by (simp_all add: cached_world_def cached_region_def cache_ok_def lru_live_def tick_again_def)
  have p: "lru_peek cached_region ?q = Some ?hosts"
    by (simp add: lru_peek_def cached_region_def)
  have e: "w_posts cached_world = []" "reqs (w_link cached_world) = []"
    by (simp_all add: cached_world_def init_def)
  from a d p e
    cached_lookup[where w = cached_world and tk = tick_again and tks = "[]" and t = Lookup
      and c = cached_region and js = stringify_example and payload = ?key and k = "Fn 1"
      and opts = no_opts]
  have first: "\<exists>w'. attempt stringify_example (Fn 1) Lookup ?key no_opts cached_world
            = (w', Calls (JNull, ?hosts)) \<and> w_posts w' = [] \<and> reqs (w_link w') = []"
    by auto
  have b: "w_ticks ?w = tick_hosts # tick_again # []"
    "cache (w_link ?w) Lookup = Some (new_LRU 2500 10000)"
    "0 < lru_max (new_LRU 2500 10000)"
    "\<not> lru_live (tk_now tick_hosts) (new_LRU 2500 10000) ?q"
    "post_cb (tk_err tick_hosts) (tk_res tick_hosts) (tk_body tick_hosts)
       = Calls (JNull, Some \<lparr> statusCode = 200 \<rparr>, ?hosts)"
    "\<not> truthy JNull" "truthy ?hosts"
    "tk_now tick_again - tk_later tick_hosts \<le> lru_maxAge (new_LRU 2500 10000)"
    by (simp_all add: example_world_def init_def default_conf_def new_LRU_def lru_live_def
        tick_hosts_def tick_again_def post_cb_def digit_char_def line_terminator_def)
  have l: "lookup_cb JNull ?hosts = (JNull, ?hosts)"
    by (simp add: lookup_cb_def)
  have w0: "w_posts ?w = []" by (simp add: example_world_def)
  from b d l w0
    cached_lookup[where w = ?w and tk = tick_hosts and tkb = tick_again and tks = "[]"
      and c = "new_LRU 2500 10000" and js = stringify_example and payload = ?key and k = "Fn 1"
      and opts = no_opts and err = JNull and rep = "Some \<lparr> statusCode = 200 \<rparr>" and msg = ?hosts]
  have second: "\<exists>w1 w2 p. lookup stringify_example (Fn 1) ?key no_opts ?w = (w1, Calls (JNull, ?hosts)) \<and>
      lookup stringify_example (Fn 1) ?key no_opts w1 = (w2, Calls (JNull, ?hosts)) \<and>
      w_posts w2 = [p]"
    by auto
  from first second show ?thesis by blast
qed


section \<open>Announcers that are stopped\<close>

lemma clearTimeout_fields [simp]:
  "s_heap (clearTimeout h s) = s_heap s" "s_next (clearTimeout h s) = s_next s"
  "s_scheduled (clearTimeout h s) = s_scheduled s" "s_link (clearTimeout h s) = s_link s"
  "s_inflight (clearTimeout h s) = s_inflight s" "s_next_timer (clearTimeout h s) = s_next_timer s"
  by (simp_all add: clearTimeout_def split: option.splits)

lemma clearTimeout_timers:
  "set (s_timers (clearTimeout h s)) \<subseteq> set (s_timers s)"
  by (auto simp: clearTimeout_def split: option.splits)

lemma pending_for_empty_iff: "pending_for r s = [] \<longleftrightarrow> (\<forall>t \<in> set (s_timers s). snd t \<noteq> r)"
  by (auto simp: pending_for_def filter_empty_conv)

lemma halt_fields [simp]:
  "s_next (halt r s) = s_next s" "s_scheduled (halt r s) = s_scheduled s"
  "s_link (halt r s) = s_link s" "s_inflight (halt r s) = s_inflight s"
  "s_next_timer (halt r s) = s_next_timer s"
  "s_heap (halt r s) = (s_heap s)(r := (s_heap s r)\<lparr> an_stopped := True \<rparr>)"
  by (simp_all add: halt_def Let_def)

lemma halt_timers: "set (s_timers (halt r s)) \<subseteq> set (s_timers s)"
  using clearTimeout_timers by (fastforce simp: halt_def Let_def)

lemma dead_halt: "dead r s \<Longrightarrow> dead r (halt r' s)"
  using halt_timers[of r' s] by (auto simp: dead_def pending_for_empty_iff)

lemma dead_halt_all: "dead r s \<Longrightarrow> dead r (halt_all rs s)"
  by (induction rs arbitrary: s) (auto intro: dead_halt)

lemma halt_all_fields [simp]:
  "s_next (halt_all rs s) = s_next s" "s_scheduled (halt_all rs s) = s_scheduled s"
  "s_link (halt_all rs s) = s_link s" "s_inflight (halt_all rs s) = s_inflight s"
  "s_next_timer (halt_all rs s) = s_next_timer s"
  by (induction rs arbitrary: s) simp_all

lemma dead_link: "dead r (s\<lparr> s_link := lk \<rparr>) = dead r s"
  by (simp add: dead_def pending_for_def)

lemma scheduled_for_link: "scheduled_for r (s\<lparr> s_link := lk \<rparr>) = scheduled_for r s"
  by (simp add: scheduled_for_def)

lemma dead_start:
  assumes "dead r s"
  shows "dead r (fst (startAnnouncing key port opts cb s))"
    and "scheduled_for r (fst (startAnnouncing key port opts cb s)) = scheduled_for r s"
  using assms
  by (auto simp: startAnnouncing_def Let_def dead_def pending_for_def ann_def scheduled_for_def)

lemma dead_stopAnnouncing:
  assumes "dead r s"
  shows "dead r (fst (stopAnnouncing key port s))"
    and "scheduled_for r (fst (stopAnnouncing key port s)) = scheduled_for r s"
  using assms dead_halt[of r "s\<lparr> s_link := (s_link s)\<lparr> announces :=
      map_delete (ident key port) (announces (s_link s)) \<rparr> \<rparr>"]
  by (auto simp: stopAnnouncing_def Let_def dead_link scheduled_for_def split: option.splits)

lemma dead_stop:
  assumes "dead r s"
  shows "dead r (stop s)" and "scheduled_for r (stop s) = scheduled_for r s"
  using assms dead_halt_all[of r "s\<lparr> s_link := (s_link s)\<lparr> cache :=
      (\<lambda>t. map_option lru_clear (cache (s_link s) t)) \<rparr> \<rparr>"]
  by (auto simp: stop_def Let_def dead_link scheduled_for_def)

lemma dead_fire:
  assumes "dead r s"
  shows "dead r (step s (TimerFires h))"
    and "scheduled_for r (step s (TimerFires h)) = scheduled_for r s"
  using assms
  by (auto simp: dead_def pending_for_empty_iff ann_def scheduled_for_def split: option.splits)

lemma dead_reann:
  assumes "dead r s"
  shows "dead r (reann r' err rnd s)"
    and "scheduled_for r (reann r' err rnd s) = scheduled_for r s"
  using assms
  by (auto simp: dead_def pending_for_empty_iff reann_def Let_def scheduled_for_def
      split: option.splits)

lemma dead_inflight: "dead r (s\<lparr> s_inflight := xs \<rparr>) = dead r s"
  by (simp add: dead_def pending_for_def)

lemma dead_done:
  assumes "dead r s"
  shows "dead r (step s (AnnounceDone i err rnd))"
    and "scheduled_for r (step s (AnnounceDone i err rnd)) = scheduled_for r s"
  using assms
    dead_reann[of r "s\<lparr> s_inflight := take i (s_inflight s) @ drop (Suc i) (s_inflight s) \<rparr>"
      "s_inflight s ! i" err rnd]
  by (auto simp: dead_inflight scheduled_for_def)

lemma dead_step:
  assumes "dead r s"
  shows "dead r (step s ev) \<and> scheduled_for r (step s ev) = scheduled_for r s"
proof (cases ev)
  case (StartAnnouncing key port opts cb)
  with dead_start[OF assms] show ?thesis by simp
next
  case (StopAnnouncing key port)
  with dead_stopAnnouncing[OF assms] show ?thesis by simp
next
  case Stop
  with dead_stop[OF assms] show ?thesis by simp
next
  case (TimerFires h)
  with dead_fire[OF assms] show ?thesis by simp
next
  case (AnnounceDone i err rnd)
  with dead_done[OF assms] show ?thesis by simp
qed

lemma dead_run:
  "dead r s \<Longrightarrow> dead r (run evs s) \<and> scheduled_for r (run evs s) = scheduled_for r s"
  unfolding run_def
proof (induction evs arbitrary: s)
  case Nil
  then show ?case by simp
next
  case (Cons ev evs)
  from dead_step[OF Cons.prems, of ev] Cons.IH[of "step s ev"] show ?case by simp
qed

lemma stopAnnouncing_dead:
  assumes "sched_inv s" and "map_of (announces (s_link s)) (ident key port) = Some r"
  shows "dead r (fst (stopAnnouncing key port s))"
proof -
  from assms have r: "r < s_next s" by (simp add: sched_inv_def)
  from assms(1) have t: "\<forall>t \<in> set (s_timers s). snd t = r \<longrightarrow> an_timeout (s_heap s r) = Some (fst t)"
    by (auto simp: sched_inv_def)
  show ?thesis
    using assms(2) r t
    by (auto simp: stopAnnouncing_def Let_def dead_def pending_for_empty_iff halt_def
        clearTimeout_def split: option.splits)
qed


section \<open>The scheduler invariant\<close>

lemma sched_inv_split: "sched_inv s = (timers_inv s \<and> announces_inv s)"
  unfolding sched_inv_def timers_inv_def announces_inv_def by (rule iffI; (elim conjE)?; intro conjI; assumption)

lemma map_of_map_set: "map_of (map_set k v ps) k' = (if k' = k then Some v else map_of ps k')"
  by (induction ps) auto

lemma map_of_map_delete: "map_of (map_delete k ps) k' = (if k' = k then None else map_of ps k')"
  unfolding map_delete_def by (induction ps) auto

lemma sched_inv_init: "sched_inv (sched_init cf)"
  by (simp add: sched_inv_def sched_init_def init_def)

lemma timers_inv_link [simp]: "timers_inv (s\<lparr> s_link := lk \<rparr>) = timers_inv s"
  by (simp add: timers_inv_def)

lemma timers_inv_start:
  assumes "timers_inv s"
  shows "timers_inv (fst (startAnnouncing key port opts cb s))"
proof (cases "map_of (announces (s_link s)) (ident key port) \<noteq> None")
  case True
  with assms show ?thesis by (simp add: startAnnouncing_def Let_def)
next
  case False
  from assms have fresh: "s_next s \<notin> set (s_inflight s)" "\<forall>t \<in> set (s_timers s). snd t \<noteq> s_next s"
    by (auto simp: timers_inv_def)
  from False have "fst (startAnnouncing key port opts cb s) =
      s\<lparr> s_heap := (s_heap s)(s_next s := \<lparr> an_key = key, an_port = port,
              an_interval = interval_of opts, an_cb = cb, an_timeout = None, an_stopped = False \<rparr>),
         s_next := Suc (s_next s),
         s_inflight := s_inflight s @ [s_next s],
         s_link := (s_link s)\<lparr> announces := map_set (ident key port) (s_next s) (announces (s_link s)) \<rparr> \<rparr>"
    by (simp add: startAnnouncing_def Let_def ann_def)
  then show ?thesis
    using assms fresh
    by (auto simp: timers_inv_def less_Suc_eq)
qed

lemma timers_inv_halt:
  assumes "timers_inv s"
  shows "timers_inv (halt r s)"
proof -
  have sub: "set (s_timers (halt r s)) \<subseteq> set (s_timers s)" by (rule halt_timers)
  have gone: "\<forall>t \<in> set (s_timers (halt r s)). snd t \<noteq> r"
    using assms by (auto simp: timers_inv_def halt_def Let_def clearTimeout_def split: option.splits)
  show ?thesis
    unfolding timers_inv_def
  proof (intro conjI ballI allI impI)
    fix t assume t: "t \<in> set (s_timers (halt r s))"
    with sub have t': "t \<in> set (s_timers s)" by blast
    from gone t have ne: "snd t \<noteq> r" by blast
    from assms t' show "fst t < s_next_timer (halt r s)" by (simp add: timers_inv_def)
    from assms t' show "snd t < s_next (halt r s)" by (simp add: timers_inv_def)
    from assms t' ne show "an_timeout (s_heap (halt r s) (snd t)) = Some (fst t)"
      by (simp add: timers_inv_def)
    from assms t' ne show "\<not> an_stopped (s_heap (halt r s) (snd t))"
      by (simp add: timers_inv_def)
    from assms t' show "snd t \<notin> set (s_inflight (halt r s))" by (simp add: timers_inv_def)
  next
    from assms show "distinct (s_inflight (halt r s))" by (simp add: timers_inv_def)
  next
    fix x assume "x \<in> set (s_inflight (halt r s))"
    with assms show "x < s_next (halt r s)" by (simp add: timers_inv_def)
  next
    fix x h assume "an_timeout (s_heap (halt r s) x) = Some h"
    with assms show "h < s_next_timer (halt r s)"
      by (cases "x = r") (auto simp: timers_inv_def)
  qed
qed

lemma timers_inv_halt_all: "timers_inv s \<Longrightarrow> timers_inv (halt_all rs s)"
  by (induction rs arbitrary: s) (auto intro: timers_inv_halt)

lemma timers_inv_stopAnnouncing:
  "timers_inv s \<Longrightarrow> timers_inv (fst (stopAnnouncing key port s))"
  by (auto simp: stopAnnouncing_def Let_def split: option.splits intro: timers_inv_halt)

lemma timers_inv_stop: "timers_inv s \<Longrightarrow> timers_inv (stop s)"
  by (simp add: stop_def Let_def timers_inv_halt_all)

lemma timers_inv_fire:
  assumes "timers_inv s"
  shows "timers_inv (step s (TimerFires h))"
proof (cases "map_of (s_timers s) h")
  case None
  with assms show ?thesis by simp
next
  case (Some r)
  then have hr: "(h, r) \<in> set (s_timers s)" by (rule map_of_SomeD)
  with assms have r: "r \<notin> set (s_inflight s)" "r < s_next s" "an_timeout (s_heap s r) = Some h"
    by (auto simp: timers_inv_def)
  have other: "\<forall>t \<in> set (s_timers s). fst t \<noteq> h \<longrightarrow> snd t \<noteq> r"
    using assms r(3) by (auto simp: timers_inv_def)
  show ?thesis
    using Some assms r other
    by (auto simp: timers_inv_def ann_def)
qed

lemma distinct_remove_nth:
  "distinct xs \<Longrightarrow> distinct (take i xs @ drop (Suc i) xs)"
  by (metis distinct_take distinct_drop distinct_append set_take_disj_set_drop_if_distinct
      Suc_n_not_le_n nat_le_linear le_SucI)

lemma removed_not_in_rest:
  assumes "distinct xs" and "i < length xs"
  shows "xs ! i \<notin> set (take i xs @ drop (Suc i) xs)"
proof -
  have "xs = take i xs @ xs ! i # drop (Suc i) xs"
    using assms(2) by (rule id_take_nth_drop)
  with assms(1) have "distinct (take i xs @ xs ! i # drop (Suc i) xs)" by simp
  then show ?thesis by auto
qed

lemma rest_subset: "set (take i xs @ drop (Suc i) xs) \<subseteq> set xs"
  by (auto dest: in_set_takeD in_set_dropD)

lemma timers_inv_reann:
  assumes "timers_inv s" and "r < s_next s" and "r \<notin> set (s_inflight s)"
    and "\<forall>t \<in> set (s_timers s). snd t \<noteq> r"
  shows "timers_inv (reann r err rnd s)"
proof -
  let ?s1 = "case an_cb (s_heap s r) of
                  Some f \<Rightarrow> s\<lparr> s_called := s_called s @ [(f, err)] \<rparr>
                | None \<Rightarrow> s"
  have f1: "s_timers ?s1 = s_timers s" "s_heap ?s1 = s_heap s" "s_next ?s1 = s_next s"
    "s_next_timer ?s1 = s_next_timer s" "s_inflight ?s1 = s_inflight s"
    by (simp_all split: option.splits)
  show ?thesis
  proof (cases "an_stopped (s_heap s r)")
    case True
    then have "reann r err rnd s = ?s1\<lparr> s_heap := (s_heap ?s1)(r := (s_heap s r)\<lparr> an_cb := None \<rparr>) \<rparr>"
      by (simp add: reann_def Let_def)
    then show ?thesis
      using assms f1 by (auto simp: timers_inv_def)
  next
    case False
    then have e: "s_timers (reann r err rnd s) = s_timers s @ [(s_next_timer s, r)]"
      "s_next_timer (reann r err rnd s) = Suc (s_next_timer s)"
      "s_next (reann r err rnd s) = s_next s"
      "s_inflight (reann r err rnd s) = s_inflight s"
      "s_heap (reann r err rnd s) =
         (s_heap s)(r := (s_heap s r)\<lparr> an_cb := None, an_timeout := Some (s_next_timer s) \<rparr>)"
      using f1 by (simp_all add: reann_def Let_def)
    show ?thesis
      unfolding timers_inv_def e
      using assms False
      by (auto simp: timers_inv_def less_Suc_eq)
  qed
qed

lemma timers_inv_inflight_remove:
  assumes "timers_inv s"
  shows "timers_inv (s\<lparr> s_inflight := take i (s_inflight s) @ drop (Suc i) (s_inflight s) \<rparr>)"
  using assms distinct_remove_nth[of "s_inflight s" i] rest_subset[of i "s_inflight s"]
  unfolding timers_inv_def by (simp add: subset_iff) blast

lemma timers_inv_done:
  assumes "timers_inv s"
  shows "timers_inv (step s (AnnounceDone i err rnd))"
proof (cases "i < length (s_inflight s)")
  case False
  with assms show ?thesis by simp
next
  case True
  let ?r = "s_inflight s ! i"
  let ?s = "s\<lparr> s_inflight := take i (s_inflight s) @ drop (Suc i) (s_inflight s) \<rparr>"
  from assms have d: "distinct (s_inflight s)" by (simp add: timers_inv_def)
  have in_fl: "?r \<in> set (s_inflight s)" using True by simp
  have a: "timers_inv ?s" using assms by (rule timers_inv_inflight_remove)
  have b: "?r < s_next ?s" using assms in_fl by (simp add: timers_inv_def)
  have c: "?r \<notin> set (s_inflight ?s)" using removed_not_in_rest[OF d True] by simp
  have e: "\<forall>t \<in> set (s_timers ?s). snd t \<noteq> ?r"
    using assms in_fl by (auto simp: timers_inv_def)
  from timers_inv_reann[OF a b c e, of err rnd] True show ?thesis by simp
qed

lemma timers_inv_step: "timers_inv s \<Longrightarrow> timers_inv (step s ev)"
  by (cases ev)
    (simp_all add: timers_inv_start timers_inv_stopAnnouncing timers_inv_stop timers_inv_fire
      timers_inv_done del: step.simps(4,5))

lemma announces_inv_same:
  assumes "announces_inv s" and "s_next s' = s_next s"
    and "announces (s_link s') = announces (s_link s)"
    and "\<forall>r. an_stopped (s_heap s' r) = an_stopped (s_heap s r) \<and>
             an_key (s_heap s' r) = an_key (s_heap s r) \<and>
             an_port (s_heap s' r) = an_port (s_heap s r)"
  shows "announces_inv s'"
  using assms unfolding announces_inv_def by simp

lemma announces_inv_start:
  assumes "announces_inv s"
  shows "announces_inv (fst (startAnnouncing key port opts cb s))"
proof (cases "map_of (announces (s_link s)) (ident key port) \<noteq> None")
  case True
  with assms show ?thesis by (simp add: startAnnouncing_def Let_def)
next
  case False
  let ?a = "\<lparr> an_key = key, an_port = port,
              an_interval = interval_of opts, an_cb = cb, an_timeout = None, an_stopped = False \<rparr>"
  let ?s = "fst (startAnnouncing key port opts cb s)"
  from False have e: "s_heap ?s = (s_heap s)(s_next s := ?a)" "s_next ?s = Suc (s_next s)"
    "announces (s_link ?s) = map_set (ident key port) (s_next s) (announces (s_link s))"
    by (simp_all add: startAnnouncing_def Let_def ann_def)
  from False have none: "map_of (announces (s_link s)) (ident key port) = None" by simp
  have A: "r < s_next ?s \<and> \<not> an_stopped (s_heap ?s r) \<and>
           ident (an_key (s_heap ?s r)) (an_port (s_heap ?s r)) = idk"
    if h: "map_of (announces (s_link ?s)) idk = Some r" for idk r
  proof (cases "idk = ident key port")
    case True
    with h show ?thesis by (simp add: e map_of_map_set)
  next
    case False
    with h have m: "map_of (announces (s_link s)) idk = Some r" by (simp add: e map_of_map_set)
    with assms have "r < s_next s" "\<not> an_stopped (s_heap s r)"
      "ident (an_key (s_heap s r)) (an_port (s_heap s r)) = idk"
      by (simp_all add: announces_inv_def)
    then show ?thesis by (simp add: e)
  qed
  have L: "map_of (announces (s_link ?s)) (ident (an_key (s_heap ?s r)) (an_port (s_heap ?s r))) = Some r"
    if r: "r < s_next ?s" and ns: "\<not> an_stopped (s_heap ?s r)" for r
  proof (cases "r = s_next s")
    case True
    then show ?thesis by (simp add: e map_of_map_set)
  next
    case False
    with r ns have "r < s_next s" "\<not> an_stopped (s_heap s r)" by (simp_all add: e)
    with assms have m: "map_of (announces (s_link s)) (ident (an_key (s_heap s r)) (an_port (s_heap s r))) = Some r"
      by (simp add: announces_inv_def)
    with none have "ident (an_key (s_heap s r)) (an_port (s_heap s r)) \<noteq> ident key port" by auto
    with m False show ?thesis by (simp add: e map_of_map_set)
  qed
  from A L show ?thesis unfolding announces_inv_def by blast
qed

lemma announces_inv_stopAnnouncing:
  assumes "announces_inv s"
  shows "announces_inv (fst (stopAnnouncing key port s))"
proof (cases "map_of (announces (s_link s)) (ident key port)")
  case None
  with assms show ?thesis by (simp add: stopAnnouncing_def Let_def)
next
  case (Some r0)
  let ?s = "fst (stopAnnouncing key port s)"
  from Some have e: "s_heap ?s = (s_heap s)(r0 := (s_heap s r0)\<lparr> an_stopped := True \<rparr>)"
    "s_next ?s = s_next s"
    "announces (s_link ?s) = map_delete (ident key port) (announces (s_link s))"
    by (simp_all add: stopAnnouncing_def Let_def)
  from assms Some have r0: "ident (an_key (s_heap s r0)) (an_port (s_heap s r0)) = ident key port"
    by (simp add: announces_inv_def)
  have A: "r < s_next ?s \<and> \<not> an_stopped (s_heap ?s r) \<and>
           ident (an_key (s_heap ?s r)) (an_port (s_heap ?s r)) = idk"
    if h: "map_of (announces (s_link ?s)) idk = Some r" for idk r
  proof -
    from h have ne: "idk \<noteq> ident key port" and m: "map_of (announces (s_link s)) idk = Some r"
      by (auto simp: e map_of_map_delete split: if_splits)
    with assms have p: "r < s_next s" "\<not> an_stopped (s_heap s r)"
        "ident (an_key (s_heap s r)) (an_port (s_heap s r)) = idk"
      by (simp_all add: announces_inv_def)
    with ne r0 have "r \<noteq> r0" by auto
    with p show ?thesis by (simp add: e)
  qed
  have L: "map_of (announces (s_link ?s)) (ident (an_key (s_heap ?s r)) (an_port (s_heap ?s r))) = Some r"
    if r: "r < s_next ?s" and ns: "\<not> an_stopped (s_heap ?s r)" for r
  proof -
    from ns have ne: "r \<noteq> r0" by (auto simp: e)
    with ns have "\<not> an_stopped (s_heap s r)" by (simp add: e)
    with assms r have m: "map_of (announces (s_link s)) (ident (an_key (s_heap s r)) (an_port (s_heap s r))) = Some r"
      by (simp add: announces_inv_def e)
    with Some ne have "ident (an_key (s_heap s r)) (an_port (s_heap s r)) \<noteq> ident key port" by auto
    with m ne show ?thesis by (simp add: e map_of_map_delete)
  qed
  from A L show ?thesis unfolding announces_inv_def by blast
qed

lemma halt_all_stopped:
  "an_stopped (s_heap (halt_all rs s) r) = (an_stopped (s_heap s r) \<or> r \<in> set rs)"
  by (induction rs arbitrary: s) auto

lemma announces_inv_stop:
  assumes "announces_inv s"
  shows "announces_inv (stop s)"
proof -
  let ?s1 = "s\<lparr> s_link := (s_link s)\<lparr> cache := (\<lambda>t. map_option lru_clear (cache (s_link s) t)) \<rparr> \<rparr>"
  let ?rs = "map snd (announces (s_link ?s1))"
  have e: "s_next (stop s) = s_next s" "announces (s_link (stop s)) = []"
    "s_heap (stop s) = s_heap (halt_all ?rs ?s1)"
    by (simp_all add: stop_def Let_def)
  have "an_stopped (s_heap (stop s) r)" if "r < s_next s" for r
  proof (cases "an_stopped (s_heap s r)")
    case True
    then show ?thesis by (simp add: e halt_all_stopped)
  next
    case False
    with assms that have "map_of (announces (s_link s)) (ident (an_key (s_heap s r)) (an_port (s_heap s r))) = Some r"
      by (simp add: announces_inv_def)
    then have "r \<in> snd ` set (announces (s_link s))"
      by (metis map_of_SomeD image_eqI snd_conv)
    then show ?thesis by (simp add: e halt_all_stopped)
  qed
  then show ?thesis
    unfolding announces_inv_def by (simp add: e)
qed

lemma announces_inv_fire:
  assumes "announces_inv s"
  shows "announces_inv (step s (TimerFires h))"
  using assms by (auto simp: ann_def intro: announces_inv_same split: option.splits)

lemma announces_inv_done:
  assumes "announces_inv s"
  shows "announces_inv (step s (AnnounceDone i err rnd))"
proof (cases "i < length (s_inflight s)")
  case False
  with assms show ?thesis by simp
next
  case True
  have "announces_inv (reann r err rnd (s\<lparr> s_inflight := xs \<rparr>))" for r xs
    by (rule announces_inv_same[OF assms])
       (simp_all add: reann_def Let_def split: option.splits)
  with True show ?thesis by simp
qed

lemma sched_inv_step: "sched_inv s \<Longrightarrow> sched_inv (step s ev)"
  unfolding sched_inv_split
  by (cases ev)
    (simp_all add: timers_inv_start timers_inv_stopAnnouncing timers_inv_stop timers_inv_fire
      timers_inv_done announces_inv_start announces_inv_stopAnnouncing announces_inv_stop
      announces_inv_fire announces_inv_done del: step.simps(4,5))

lemma sched_inv_run: "sched_inv s \<Longrightarrow> sched_inv (run evs s)"
  unfolding run_def
  by (induction evs arbitrary: s) (simp_all add: sched_inv_step)

lemma sched_inv_reachable: "sched_inv (run evs (sched_init cf))"
  by (rule sched_inv_run[OF sched_inv_init])


section \<open>Stopping and starting an announce schedule\<close>

lemma stopAnnouncing_scheduled:
  "s_scheduled (fst (stopAnnouncing key port s)) = s_scheduled s"
  by (simp add: stopAnnouncing_def Let_def split: option.splits)

lemma stopAnnouncing_all_dead:
  assumes "sched_inv s" and "map_of (announces (s_link s)) (ident key port) = Some r"
    and "r' < s_next (fst (stopAnnouncing key port s))"
    and "ident (an_key (s_heap (fst (stopAnnouncing key port s)) r'))
               (an_port (s_heap (fst (stopAnnouncing key port s)) r')) = ident key port"
  shows "dead r' (fst (stopAnnouncing key port s))"
proof -
  let ?s = "fst (stopAnnouncing key port s)"
  have inv: "sched_inv ?s"
    using sched_inv_step[OF assms(1), of "StopAnnouncing key port"] by simp
  have gone: "map_of (announces (s_link ?s)) (ident key port) = None"
    using assms(2) by (simp add: stopAnnouncing_def Let_def map_of_map_delete)
  have st: "an_stopped (s_heap ?s r')"
  proof (rule ccontr)
    assume "\<not> an_stopped (s_heap ?s r')"
    with inv assms(3) have "map_of (announces (s_link ?s))
        (ident (an_key (s_heap ?s r')) (an_port (s_heap ?s r'))) = Some r'"
      by (simp add: sched_inv_def)
    with assms(4) gone show False by simp
  qed
  have "\<forall>t \<in> set (s_timers ?s). snd t \<noteq> r'"
    using inv st by (auto simp: sched_inv_def)
  with st assms(3) show ?thesis
    by (simp add: dead_def pending_for_empty_iff)
qed

lemmas sched_defs =
  run_def sched_init_def startAnnouncing_def stopAnnouncing_def ann_def reann_def halt_def
  clearTimeout_def Let_def init_def ident_def digit_char_def map_delete_def interval_of_def

lemma started_announces: "map_of (announces (s_link started)) (ident ''svc'' 1337) = Some 0"
  by (simp add: started_def sched_defs)

lemma waiting_state:
  "map_of (announces (s_link waiting)) (ident ''svc'' 1337) = Some 0"
  "s_timers waiting = [(0, 0)]" "s_inflight waiting = []"
  by (simp_all add: waiting_def sched_defs)

lemma announcing_again_state:
  "map_of (announces (s_link announcing_again)) (ident ''svc'' 1337) = Some 0"
  "s_timers announcing_again = []" "s_inflight announcing_again = [0]"
  by (simp_all add: announcing_again_def sched_defs)

text \<open>
  C3. Let \<open>stopAnnouncing(key, port)\<close> find an announcer in a state the events lead
  to. When it returns, the announcer is stopped, and every announcer of that pair that
  exists has no pending timer: the pending timer, when there was one, is cancelled
  before the call returns. Whatever happens afterwards, no timer is scheduled for any
  of these announcers and none is pending: the completion of an announce call that was
  in flight when the schedule was stopped finds \<open>stopped\<close> set and schedules nothing.
  (A later \<open>startAnnouncing\<close> of the pair makes a new announcer, with timers of its
  own.)
\<close>

theorem stopAnnouncing_silences:
  assumes "sched_inv s" and "map_of (announces (s_link s)) (ident key port) = Some r"
  shows "r < s_next (fst (stopAnnouncing key port s)) \<and>
         ident (an_key (s_heap (fst (stopAnnouncing key port s)) r))
               (an_port (s_heap (fst (stopAnnouncing key port s)) r)) = ident key port \<and>
         an_stopped (s_heap (fst (stopAnnouncing key port s)) r) \<and>
         (\<forall>r'. r' < s_next (fst (stopAnnouncing key port s)) \<and>
               ident (an_key (s_heap (fst (stopAnnouncing key port s)) r'))
                     (an_port (s_heap (fst (stopAnnouncing key port s)) r')) = ident key port \<longrightarrow>
               pending_for r' (fst (stopAnnouncing key port s)) = [] \<and>
               (\<forall>evs. pending_for r' (run evs (fst (stopAnnouncing key port s))) = [] \<and>
                      scheduled_for r' (run evs (fst (stopAnnouncing key port s)))
                        = scheduled_for r' s))"
proof -
  let ?s = "fst (stopAnnouncing key port s)"
  from assms have r: "r < s_next s" "ident (an_key (s_heap s r)) (an_port (s_heap s r)) = ident key port"
    by (simp_all add: sched_inv_def)
  from assms(2) r have a: "r < s_next ?s"
    "ident (an_key (s_heap ?s r)) (an_port (s_heap ?s r)) = ident key port"
    "an_stopped (s_heap ?s r)"
    by (simp_all add: stopAnnouncing_def Let_def)
  have b: "pending_for r' ?s = [] \<and>
           (\<forall>evs. pending_for r' (run evs ?s) = [] \<and> scheduled_for r' (run evs ?s) = scheduled_for r' s)"
    if "r' < s_next ?s \<and> ident (an_key (s_heap ?s r')) (an_port (s_heap ?s r')) = ident key port"
    for r'
  proof -
    from that have d: "dead r' ?s"
      using stopAnnouncing_all_dead[OF assms] by blast
    have "scheduled_for r' ?s = scheduled_for r' s"
      by (simp add: scheduled_for_def stopAnnouncing_scheduled)
    with d dead_run[OF d] show ?thesis by (simp add: dead_def)
  qed
  from a b show ?thesis by blast
qed

theorem stopAnnouncing_silences_witness:
  "sched_inv waiting \<and> pending_for 0 waiting = [(0, 0)] \<and>
   pending_for 0 (fst (stopAnnouncing ''svc'' 1337 waiting)) = [] \<and>
   scheduled_for 0 (run [TimerFires 0] (fst (stopAnnouncing ''svc'' 1337 waiting)))
     = scheduled_for 0 waiting \<and>
   sched_inv announcing_again \<and> s_inflight announcing_again = [0] \<and>
   an_stopped (s_heap (fst (stopAnnouncing ''svc'' 1337 announcing_again)) 0) \<and>
   scheduled_for 0 (run [AnnounceDone 0 JNull (1 / 4)]
                      (fst (stopAnnouncing ''svc'' 1337 announcing_again)))
     = scheduled_for 0 announcing_again \<and>
   pending_for 0 (run [AnnounceDone 0 JNull (1 / 4)]
                    (fst (stopAnnouncing ''svc'' 1337 announcing_again))) = []"
proof -
  have i1: "sched_inv waiting" unfolding waiting_def by (rule sched_inv_reachable)
  have i2: "sched_inv announcing_again" unfolding announcing_again_def by (rule sched_inv_reachable)
  have p: "pending_for 0 waiting = [(0, 0)]"
    by (simp add: pending_for_def waiting_state)
  note t1 = stopAnnouncing_silences[OF i1 waiting_state(1)]
  note t2 = stopAnnouncing_silences[OF i2 announcing_again_state(1)]
  from t1 have a: "pending_for 0 (fst (stopAnnouncing ''svc'' 1337 waiting)) = []"
    "scheduled_for 0 (run [TimerFires 0] (fst (stopAnnouncing ''svc'' 1337 waiting)))
       = scheduled_for 0 waiting"
    by blast+
  from t2 have b: "an_stopped (s_heap (fst (stopAnnouncing ''svc'' 1337 announcing_again)) 0)"
    "scheduled_for 0 (run [AnnounceDone 0 JNull (1 / 4)]
                      (fst (stopAnnouncing ''svc'' 1337 announcing_again)))
       = scheduled_for 0 announcing_again"
    "pending_for 0 (run [AnnounceDone 0 JNull (1 / 4)]
                    (fst (stopAnnouncing ''svc'' 1337 announcing_again))) = []"
    by blast+
  from i1 i2 p a b announcing_again_state(3) show ?thesis by blast
qed

lemma filter_at_most_one:
  "distinct xs \<Longrightarrow> (\<forall>x \<in> set xs. \<forall>y \<in> set xs. P x \<longrightarrow> P y \<longrightarrow> x = y) \<Longrightarrow>
   length (filter P xs) \<le> 1"
proof (induction xs)
  case Nil
  then show ?case by simp
next
  case (Cons x xs)
  show ?case
  proof (cases "P x")
    case True
    with Cons.prems have "filter P xs = []"
      by (auto simp: filter_empty_conv)
    with True show ?thesis by simp
  next
    case False
    with Cons show ?thesis by simp
  qed
qed

lemma live_at_most_one:
  assumes "sched_inv s"
  shows "length (live s idk) \<le> 1"
  unfolding live_def
proof (rule filter_at_most_one)
  show "distinct [0..<s_next s]" by simp
  show "\<forall>x \<in> set [0..<s_next s]. \<forall>y \<in> set [0..<s_next s].
          \<not> an_stopped (s_heap s x) \<and> ident (an_key (s_heap s x)) (an_port (s_heap s x)) = idk \<longrightarrow>
          \<not> an_stopped (s_heap s y) \<and> ident (an_key (s_heap s y)) (an_port (s_heap s y)) = idk \<longrightarrow>
          x = y"
  proof (intro ballI impI)
    fix x y
    assume x: "x \<in> set [0..<s_next s]" and y: "y \<in> set [0..<s_next s]"
      and px: "\<not> an_stopped (s_heap s x) \<and> ident (an_key (s_heap s x)) (an_port (s_heap s x)) = idk"
      and py: "\<not> an_stopped (s_heap s y) \<and> ident (an_key (s_heap s y)) (an_port (s_heap s y)) = idk"
    from assms x px have "map_of (announces (s_link s)) idk = Some x"
      by (auto simp: sched_inv_def)
    moreover from assms y py have "map_of (announces (s_link s)) idk = Some y"
      by (auto simp: sched_inv_def)
    ultimately show "x = y" by simp
  qed
qed

text \<open>
  C4. A \<open>startAnnouncing(key, port)\<close> while \<open>_announces\<close> holds an announcer under
  the identity key \<open>port + ':' + key\<close> returns \<open>false\<close> and leaves the whole state as
  it was: no new announcer, no announce call, no timer, the schedule that exists
  untouched. In every state the events lead to, at most one live announcer exists for
  an identity key, and a \<open>startAnnouncing\<close> keeps it so.
\<close>

theorem startAnnouncing_duplicate:
  "(map_of (announces (s_link s)) (ident key port) = Some r \<longrightarrow>
      startAnnouncing key port opts cb s = (s, JBool False)) \<and>
   (sched_inv s \<longrightarrow> length (live s idk) \<le> 1 \<and>
      sched_inv (fst (startAnnouncing key port opts cb s)))"
  using live_at_most_one[of s idk] sched_inv_step[of s "StartAnnouncing key port opts cb"]
  by (simp add: startAnnouncing_def Let_def)

theorem startAnnouncing_duplicate_witness:
  "map_of (announces (s_link started)) (ident ''svc'' 1337) = Some 0 \<and>
   startAnnouncing ''svc'' 1337 None (Some (Fn 1)) started = (started, JBool False) \<and>
   sched_inv started \<and> length (live started (ident ''svc'' 1337)) \<le> 1"
proof -
  have i: "sched_inv started" unfolding started_def by (rule sched_inv_reachable)
  from startAnnouncing_duplicate[of started "''svc''" 1337 0 None "Some (Fn 1)" "ident ''svc'' 1337"]
    started_announces i
  show ?thesis by blast
qed

lemma live_started: "live started (ident ''svc'' 1337) = [0]"
  by (simp add: live_def started_def sched_defs)


end
